theory Spec2Isabelle
  imports Main "HOL-Library.AList"
begin

section \<open>Strings, dictionaries and errors of the Python source\<close>

text \<open>
  The development embeds \<^verbatim>\<open>src/data_generator.py\<close>: the table loader
  \<^verbatim>\<open>read_csv\<close>, the line resolver \<^verbatim>\<open>extract_line_number\<close>, the
  side table \<^verbatim>\<open>extract_nodes_with_location_info\<close>, the graph constructor
  \<^verbatim>\<open>build_PDG\<close> and the slice extractor \<^verbatim>\<open>build_XFG\<close>.

  Conventions of the embedding.
  \<^item> A Python \<^verbatim>\<open>str\<close> is a \<open>string\<close>; only ASCII text is modelled, so the
    whitespace of \<^verbatim>\<open>str.strip\<close> and the digits of \<^verbatim>\<open>int\<close> are the ASCII ones.
  \<^item> A Python \<^verbatim>\<open>dict\<close> is an association list in insertion order; assignment
    \<^verbatim>\<open>d[k] = v\<close> is \<open>AList.update\<close> (overwrite in place, or append), lookup is
    \<open>map_of\<close>, and a lookup of a missing key raises \<open>KeyError\<close>.
  \<^item> A Python \<^verbatim>\<open>set\<close> of line numbers that is only tested for membership is an
    \<open>int set\<close>; a set that the code iterates over (the key lines of a category) is a
    duplicate-free list, whose order stands for the iteration order of the set, which
    Python leaves unspecified and on which no property below depends.
  \<^item> Every \<^verbatim>\<open>raise\<close> of the source is a value \<open>Inl e\<close> of the result.
  \<^item> The file system is a partial map from paths to the text of regular files, as
    Python's text layer delivers it (decoded, line ends already translated to newline).
    \<^verbatim>\<open>print\<close> is not modelled, and assertions are taken to be enabled.
\<close>

datatype error = AssertionError | KeyError | IndexError | ValueError

type_synonym row = "(string \<times> string) list"

type_synonym filesystem = "string \<rightharpoonup> string"

definition bind_err :: "error + 'a \<Rightarrow> ('a \<Rightarrow> error + 'b) \<Rightarrow> error + 'b" where
  "bind_err r f = (case r of Inl e \<Rightarrow> Inl e | Inr v \<Rightarrow> f v)"

text \<open>\<^verbatim>\<open>d[k]\<close> on a dictionary.\<close>

definition getitem :: "('k \<times> 'v) list \<Rightarrow> 'k \<Rightarrow> error + 'v" where
  "getitem d k = (case map_of d k of None \<Rightarrow> Inl KeyError | Some v \<Rightarrow> Inr v)"

text \<open>\<^verbatim>\<open>xs[i]\<close> on a list, for an index that is not negative.\<close>

definition index :: "'a list \<Rightarrow> nat \<Rightarrow> error + 'a" where
  "index xs i = (if i < length xs then Inr (xs ! i) else Inl IndexError)"

text \<open>The characters for which \<^verbatim>\<open>str.isspace\<close> holds, among the ASCII ones.\<close>

definition isspace :: "char \<Rightarrow> bool" where
  "isspace ch = (ch \<in> set [CHR 0x09, CHR 0x0A, CHR 0x0B, CHR 0x0C, CHR 0x0D,
                            CHR 0x1C, CHR 0x1D, CHR 0x1E, CHR 0x1F, CHR 0x20])"

definition strip :: "string \<Rightarrow> string" where
  "strip s = rev (dropWhile isspace (rev (dropWhile isspace s)))"

text \<open>\<^verbatim>\<open>s.split(sep)\<close> for a separator of one character: never an empty list.\<close>

fun split :: "char \<Rightarrow> string \<Rightarrow> string list" where
  "split sep [] = [[]]"
| "split sep (ch # cs) =
     (if ch = sep then [] # split sep cs
      else (case split sep cs of [] \<Rightarrow> [[ch]] | part # parts \<Rightarrow> (ch # part) # parts))"

definition isdigit :: "char \<Rightarrow> bool" where
  "isdigit ch = (48 \<le> (of_char ch :: nat) \<and> (of_char ch :: nat) \<le> 57)"

text \<open>
  The digits of a decimal literal of \<^verbatim>\<open>int(s)\<close>: a single underscore is allowed
  between two digits.
\<close>

fun digits :: "string \<Rightarrow> nat \<Rightarrow> nat option" where
  "digits [] acc = Some acc"
| "digits (ch # cs) acc =
     (if isdigit ch then digits cs (10 * acc + (of_char ch - 48))
      else if ch = CHR ''_'' \<and> cs \<noteq> [] \<and> isdigit (hd cs) then digits cs acc
      else None)"

definition unsigned :: "string \<Rightarrow> nat option" where
  "unsigned s = (case s of [] \<Rightarrow> None | ch # _ \<Rightarrow> if isdigit ch then digits s 0 else None)"

text \<open>
  The whitespace that \<^verbatim>\<open>int(s)\<close> skips at both ends of an ASCII string: that of
  C, without the separators \<^verbatim>\<open>0x1C\<close> to \<^verbatim>\<open>0x1F\<close> that \<^verbatim>\<open>str.strip\<close>
  removes as well.
\<close>

definition Py_ISSPACE :: "char \<Rightarrow> bool" where
  "Py_ISSPACE ch = (ch \<in> set [CHR 0x09, CHR 0x0A, CHR 0x0B, CHR 0x0C, CHR 0x0D, CHR 0x20])"

text \<open>
  \<^verbatim>\<open>int(s)\<close> in base ten: surrounding whitespace is dropped, one sign is allowed,
  and \<open>None\<close> is the \<^verbatim>\<open>ValueError\<close>. The bound that recent interpreters put
  on the number of digits is not modelled.
\<close>

definition py_int :: "string \<Rightarrow> int option" where
  "py_int s =
     (case rev (dropWhile Py_ISSPACE (rev (dropWhile Py_ISSPACE s))) of
        [] \<Rightarrow> None
      | ch # cs \<Rightarrow>
          if ch = CHR ''-'' then map_option (\<lambda>n. - int n) (unsigned cs)
          else if ch = CHR ''+'' then map_option int (unsigned cs)
          else map_option int (unsigned (ch # cs)))"

section \<open>The table loader\<close>

text \<open>
  Iterating over a text file yields its lines, each with its newline; a last line
  without newline is a line too.
\<close>

fun readlines :: "string \<Rightarrow> string list" where
  "readlines [] = []"
| "readlines (ch # cs) =
     (if ch = CHR 0x0A then [ch] # readlines cs
      else (case readlines cs of [] \<Rightarrow> [[ch]] | l # ls \<Rightarrow> (ch # l) # ls))"

text \<open>
  The inner loop of \<^verbatim>\<open>read_csv\<close>:
  \<^verbatim>\<open>for i, hp in enumerate(h_parts): ... instance[hp] = content\<close>.
\<close>

definition read_row :: "string list \<Rightarrow> string list \<Rightarrow> row" where
  "read_row h_parts lparts =
     fold (\<lambda>(i, hp) instance.
             AList.update hp (if i < length lparts then strip (lparts ! i) else []) instance)
          (enumerate 0 h_parts) []"

text \<open>The value that the inner loop stores for column \<open>i\<close> of a row.\<close>

definition cell :: "string list \<Rightarrow> nat \<Rightarrow> string" where
  "cell lparts i = (if i < length lparts then strip (lparts ! i) else [])"

definition header_parts :: "string \<Rightarrow> string list" where
  "header_parts txt =
     map strip (split (CHR 0x09) (strip (case readlines txt of [] \<Rightarrow> [] | h # _ \<Rightarrow> h)))"

definition read_csv :: "filesystem \<Rightarrow> string \<Rightarrow> error + row list" where
  "read_csv fs csv_file_path =
     (case fs csv_file_path of
        None \<Rightarrow> Inl AssertionError
      | Some txt \<Rightarrow>
          Inr (map (\<lambda>line. read_row (header_parts txt) (split (CHR 0x09) (strip line)))
                   (tl (readlines txt))))"

section \<open>Line numbers of nodes\<close>

text \<open>
  One round of the loop of \<^verbatim>\<open>extract_line_number\<close>: the line of the node's own
  \<^verbatim>\<open>location\<close>, when the field is there, is not blank and its part before the
  first colon is an integer; the \<^verbatim>\<open>ValueError\<close> of \<^verbatim>\<open>int\<close> is caught there.
\<close>

definition own_line :: "row \<Rightarrow> int option" where
  "own_line c_node =
     (case map_of c_node ''location'' of
        None \<Rightarrow> None
      | Some location \<Rightarrow>
          if strip location \<noteq> [] then py_int (hd (split (CHR '':'') location)) else None)"

function extract_line_number :: "int \<Rightarrow> row list \<Rightarrow> error + int" where
  "extract_line_number idx nodes =
     (if idx \<ge> 0 then
        (case index nodes (nat idx) of
           Inl e \<Rightarrow> Inl e
         | Inr c_node \<Rightarrow>
             (case own_line c_node of
                Some ln \<Rightarrow> Inr ln
              | None \<Rightarrow> extract_line_number (idx - 1) nodes))
      else Inr (- 1))"
  by pat_completeness auto
termination
  by (relation "measure (\<lambda>(idx, nodes). nat (idx + 1))") auto

declare extract_line_number.simps [simp del]

text \<open>A loop whose body may raise: the first error ends it.\<close>

fun for_each :: "('a \<Rightarrow> 's \<Rightarrow> error + 's) \<Rightarrow> 'a list \<Rightarrow> 's \<Rightarrow> error + 's" where
  "for_each body [] s = Inr s"
| "for_each body (x # xs) s = bind_err (body x s) (for_each body xs)"

type_synonym location_info = "nat list \<times> string list \<times> int list \<times> (string \<times> int) list"

text \<open>
  The body of the loop of \<^verbatim>\<open>extract_nodes_with_location_info\<close>. Here
  \<^verbatim>\<open>int\<close> is outside any \<^verbatim>\<open>try\<close>, and the location is compared with the
  empty string as it is.
\<close>

definition location_step :: "nat \<times> row \<Rightarrow> location_info \<Rightarrow> error + location_info" where
  "location_step = (\<lambda>(node_index, node) (node_indices, node_ids, line_numbers, node_id_to_line_number).
     (case map_of node ''location'' of
        None \<Rightarrow> Inr (node_indices, node_ids, line_numbers, node_id_to_line_number)
      | Some location \<Rightarrow>
          if location = [] then Inr (node_indices, node_ids, line_numbers, node_id_to_line_number)
          else
            (case py_int (hd (split (CHR '':'') location)) of
               None \<Rightarrow> Inl ValueError
             | Some line_num \<Rightarrow>
                 bind_err (getitem node ''key'') (\<lambda>k.
                   Inr (node_indices @ [node_index], node_ids @ [strip k],
                        line_numbers @ [line_num],
                        AList.update (strip k) line_num node_id_to_line_number)))))"

definition extract_nodes_with_location_info :: "row list \<Rightarrow> error + location_info" where
  "extract_nodes_with_location_info nodes =
     for_each location_step (enumerate 0 nodes) ([], [], [], [])"

section \<open>The directed graph of the graph library\<close>

text \<open>
  A \<^verbatim>\<open>networkx.DiGraph\<close> over line numbers, as far as the source uses it: the
  graph attributes, the nodes in the order they were added, and the edges in the order
  they were first added, each with the value of its one attribute \<^verbatim>\<open>"c/d"\<close>.
  Adding an edge adds its end points as nodes when they are new, and an edge added
  again keeps its place and takes the new attribute value.
\<close>

datatype attr = Paths "string list" | Line int

record DiGraph =
  graph :: "(string \<times> attr) list"
  node :: "int list"
  adj :: "((int \<times> int) \<times> string) list"

definition add_node :: "int \<Rightarrow> int list \<Rightarrow> int list" where
  "add_node n ns = (if n \<in> set ns then ns else ns @ [n])"

definition add_edge :: "int \<times> int \<times> string \<Rightarrow> DiGraph \<Rightarrow> DiGraph" where
  "add_edge = (\<lambda>(u, v, cd) G.
     G\<lparr>node := add_node v (add_node u (node G)), adj := AList.update (u, v) cd (adj G)\<rparr>)"

definition add_edges_from :: "(int \<times> int \<times> string) list \<Rightarrow> DiGraph \<Rightarrow> DiGraph" where
  "add_edges_from ebunch G = fold add_edge ebunch G"

text \<open>
  The dictionaries \<^verbatim>\<open>G._pred\<close> and \<^verbatim>\<open>G._succ\<close>: one entry per node, holding
  the keys of the node's predecessors (successors) in the order of their edges.
\<close>

definition DiGraph_pred :: "DiGraph \<Rightarrow> (int \<times> int list) list" where
  "DiGraph_pred G = map (\<lambda>n. (n, map (fst \<circ> fst) (filter (\<lambda>e. snd (fst e) = n) (adj G)))) (node G)"

definition DiGraph_succ :: "DiGraph \<Rightarrow> (int \<times> int list) list" where
  "DiGraph_succ G = map (\<lambda>n. (n, map (snd \<circ> fst) (filter (\<lambda>e. fst (fst e) = n) (adj G)))) (node G)"

text \<open>
  \<^verbatim>\<open>G.subgraph(list(S)).copy()\<close>: the members of \<open>S\<close> that are nodes of the graph
  (others are passed over in silence), the edges between them, and the graph's
  attributes. The lists of the copy are in the graph's order, the edges node by node.
  That is the library's order when \<open>S\<close> covers at least half of the graph; for a
  smaller \<open>S\<close> the library follows the order in which the set \<open>S\<close> is listed, which
  Python leaves unspecified. The statements below are about the members of these lists,
  or about a slice that is the whole graph.
\<close>

definition subgraph_copy :: "DiGraph \<Rightarrow> int set \<Rightarrow> DiGraph" where
  "subgraph_copy G S =
     (let ns = filter (\<lambda>n. n \<in> S) (node G)
      in \<lparr>graph = graph G, node = ns,
          adj = concat (map (\<lambda>u. filter (\<lambda>e. fst (fst e) = u \<and> snd (fst e) \<in> S) (adj G)) ns)\<rparr>)"

section \<open>The slice extractor\<close>

text \<open>
  The inner loop of a traversal,
  \<^verbatim>\<open>for pred in PDG._pred[fro]: if pred not in visited: ...\<close>,
  on the visited set and the queue.
\<close>

fun visit :: "int list \<Rightarrow> int set \<times> int list \<Rightarrow> int set \<times> int list" where
  "visit [] (visited, queue) = (visited, queue)"
| "visit (p # ps) (visited, queue) =
     (if p \<notin> visited then visit ps (insert p visited, queue @ [p])
      else visit ps (visited, queue))"

lemma visit_grows:
  "visit ps (visited, queue) = (visited', queue') \<Longrightarrow>
     visited \<subseteq> visited' \<and> visited' \<subseteq> visited \<union> set ps \<and>
     (visited' = visited \<longrightarrow> queue' = queue)"
proof (induction ps arbitrary: visited queue)
  case Nil
  then show ?case by simp
next
  case (Cons p ps)
  show ?case
  proof (cases "p \<in> visited")
    case True
    with Cons.prems have "visit ps (visited, queue) = (visited', queue')" by simp
    from Cons.IH [OF this] True show ?thesis by auto
  next
    case False
    with Cons.prems have "visit ps (insert p visited, queue @ [p]) = (visited', queue')"
      by simp
    from Cons.IH [OF this] False show ?thesis by auto
  qed
qed

text \<open>
  The loop \<^verbatim>\<open>while bqueue: fro = bqueue.pop(0); ...\<close> over one of the two
  adjacency dictionaries. It ends because every round either marks a new neighbour as
  visited, of which the dictionary holds finitely many, or shortens the queue.
\<close>

function traverse :: "(int \<times> int list) list \<Rightarrow> int list \<Rightarrow> int set \<Rightarrow> int set \<Rightarrow> int set" where
  "traverse nbrs [] visited sliced_lines = sliced_lines"
| "traverse nbrs (fro # queue) visited sliced_lines =
     (case map_of nbrs fro of
        None \<Rightarrow> traverse nbrs queue visited (insert fro sliced_lines)
      | Some ps \<Rightarrow>
          (case visit ps (visited, queue) of
             (visited', queue') \<Rightarrow> traverse nbrs queue' visited' (insert fro sliced_lines)))"
  by pat_completeness auto
termination
proof (relation "inv_image (less_than <*lex*> less_than)
    (\<lambda>(nbrs, queue, visited, sliced_lines).
       (card (\<Union> (set ` snd ` set nbrs) - visited), length queue))", goal_cases)
  case 1
  show ?case by (intro wf_inv_image wf_lex_prod wf_less_than)
next
  case (2 nbrs fro queue visited sliced_lines)
  show ?case by simp
next
  case (3 nbrs fro queue visited sliced_lines ps visited' queue')
  let ?V = "\<Union> (set ` snd ` set nbrs)"
  from 3 have v: "visit ps (visited, queue) = (visited', queue')" by simp
  from 3(1) have "(fro, ps) \<in> set nbrs" by (rule map_of_SomeD)
  then have ps: "set ps \<subseteq> ?V" by force
  have fin: "finite ?V" by simp
  from visit_grows [OF v]
  have sub: "visited \<subseteq> visited'" and up: "visited' \<subseteq> visited \<union> set ps"
    and same: "visited' = visited \<longrightarrow> queue' = queue" by auto
  show ?case
  proof (cases "visited' = visited")
    case True
    with same show ?thesis by simp
  next
    case False
    with sub obtain p where p: "p \<in> visited'" "p \<notin> visited" by auto
    with up ps have pV: "p \<in> ?V" by auto
    have "?V - visited' \<subset> ?V - visited" using sub p pV by auto
    then have "card (?V - visited') < card (?V - visited)"
      using fin by (intro psubset_card_mono) auto
    then show ?thesis by simp
  qed
qed

declare traverse.simps [simp del]

text \<open>
  The body of the loop over the key lines of one category: both traversals fill the
  same set \<^verbatim>\<open>sliced_lines\<close>, then the slice is cut out of the graph and tagged.
\<close>

definition sliced_lines :: "DiGraph \<Rightarrow> int \<Rightarrow> int set" where
  "sliced_lines PDG ln =
     traverse (DiGraph_succ PDG) [ln] {ln} (traverse (DiGraph_pred PDG) [ln] {ln} {})"

definition XFG_of :: "DiGraph \<Rightarrow> int \<Rightarrow> DiGraph" where
  "XFG_of PDG ln =
     (let XFG = subgraph_copy PDG (sliced_lines PDG ln)
      in XFG\<lparr>graph := AList.update ''key_line'' (Line ln) (graph XFG)\<rparr>)"

definition slice_step :: "DiGraph \<Rightarrow> string \<Rightarrow> int \<Rightarrow> (string \<times> DiGraph list) list \<Rightarrow> (string \<times> DiGraph list) list" where
  "slice_step PDG key ln res =
     (if sliced_lines PDG ln \<noteq> {}
      then AList.map_entry key (\<lambda>xs. xs @ [XFG_of PDG ln]) res
      else res)"

definition build_XFG ::
  "DiGraph option \<Rightarrow> (string \<times> int list) list option \<Rightarrow> error + (string \<times> DiGraph list) list option" where
  "build_XFG PDG key_line_map =
     (case PDG of
        None \<Rightarrow> Inr None
      | Some G \<Rightarrow>
          (case key_line_map of
             None \<Rightarrow> Inr None
           | Some klm \<Rightarrow>
               bind_err
                 (for_each
                    (\<lambda>key res. bind_err (getitem klm key) (\<lambda>lns. Inr (fold (slice_step G key) lns res)))
                    [''call'', ''array'', ''ptr'', ''arith'']
                    [(''call'', []), (''array'', []), (''ptr'', []), (''arith'', [])])
                 (\<lambda>res. Inr (Some res))))"

section \<open>The graph constructor\<close>

text \<open>\<^verbatim>\<open>os.path.join\<close> of two components, on POSIX.\<close>

definition join :: "string \<Rightarrow> string \<Rightarrow> string" where
  "join a b =
     (if b \<noteq> [] \<and> hd b = CHR ''/'' then b
      else if a = [] \<or> last a = CHR ''/'' then a @ b
      else a @ ''/'' @ b)"

text \<open>\<^verbatim>\<open>s.add(x)\<close> on a set that is iterated over later.\<close>

definition set_add :: "int \<Rightarrow> int list \<Rightarrow> int list" where
  "set_add x s = (if x \<in> set s then s else s @ [x])"

type_synonym key_lines = "int list \<times> int list \<times> int list \<times> int list"

text \<open>
  \<^verbatim>\<open>line_no = extract_line_number(node_idx, nodes); if line_no > 0: lines.add(line_no)\<close>
\<close>

definition add_line :: "nat \<Rightarrow> row list \<Rightarrow> int list \<Rightarrow> error + int list" where
  "add_line node_idx nodes lines =
     bind_err (extract_line_number (int node_idx) nodes) (\<lambda>line_no.
       Inr (if line_no > 0 then set_add line_no lines else lines))"

text \<open>The body of the classification loop of \<^verbatim>\<open>build_PDG\<close>.\<close>

definition classify_step :: "string set \<Rightarrow> row list \<Rightarrow> nat \<times> row \<Rightarrow> key_lines \<Rightarrow> error + key_lines" where
  "classify_step sensi_api_set nodes =
     (\<lambda>(node_idx, node) (call_lines, array_lines, ptr_lines, arithmatic_lines).
       bind_err (getitem node ''type'') (\<lambda>t.
         if strip t = ''CallExpression'' then
           bind_err (index nodes (node_idx + 1)) (\<lambda>next_node.
           bind_err (getitem next_node ''code'') (\<lambda>function_name.
             if strip function_name = [] then
               Inr (call_lines, array_lines, ptr_lines, arithmatic_lines)
             else if strip function_name \<in> sensi_api_set then
               bind_err (add_line node_idx nodes call_lines) (\<lambda>call_lines'.
                 Inr (call_lines', array_lines, ptr_lines, arithmatic_lines))
             else Inr (call_lines, array_lines, ptr_lines, arithmatic_lines)))
         else if strip t = ''ArrayIndexing'' then
           bind_err (add_line node_idx nodes array_lines) (\<lambda>array_lines'.
             Inr (call_lines, array_lines', ptr_lines, arithmatic_lines))
         else if strip t = ''PtrMemberAccess'' then
           bind_err (add_line node_idx nodes ptr_lines) (\<lambda>ptr_lines'.
             Inr (call_lines, array_lines, ptr_lines', arithmatic_lines))
         else
           bind_err (getitem node ''operator'') (\<lambda>operator.
             if strip operator \<in> set [''+'', ''-'', ''*'', ''/''] then
               bind_err (add_line node_idx nodes arithmatic_lines) (\<lambda>arithmatic_lines'.
                 Inr (call_lines, array_lines, ptr_lines, arithmatic_lines'))
             else Inr (call_lines, array_lines, ptr_lines, arithmatic_lines))))"

type_synonym edge_lists = "(int \<times> int \<times> string) list \<times> (int \<times> int \<times> string) list"

text \<open>The body of the loop over the edge records.\<close>

definition edge_step :: "(string \<times> int) list \<Rightarrow> row \<Rightarrow> edge_lists \<Rightarrow> error + edge_lists" where
  "edge_step node_id_to_ln edge =
     (\<lambda>(control_edges, data_edges).
       bind_err (getitem edge ''type'') (\<lambda>t.
       bind_err (getitem edge ''start'') (\<lambda>s.
       bind_err (getitem edge ''end'') (\<lambda>e.
         (case map_of node_id_to_ln (strip s) of
            None \<Rightarrow> Inr (control_edges, data_edges)
          | Some start_ln \<Rightarrow>
              (case map_of node_id_to_ln (strip e) of
                 None \<Rightarrow> Inr (control_edges, data_edges)
               | Some end_ln \<Rightarrow>
                   Inr (if strip t = ''CONTROLS''
                        then control_edges @ [(start_ln, end_ln, ''c'')] else control_edges,
                        if strip t = ''REACHES''
                        then data_edges @ [(start_ln, end_ln, ''d'')] else data_edges)))))))"

text \<open>
  \<^verbatim>\<open>build_PDG\<close> from the point where both tables are read and the node table is
  not empty.
\<close>

definition PDG_of_tables ::
  "string set \<Rightarrow> row list \<Rightarrow> row list \<Rightarrow> string \<Rightarrow> error + (DiGraph \<times> (string \<times> int list) list)" where
  "PDG_of_tables sensi_api_set nodes edges source_path =
     bind_err (for_each (classify_step sensi_api_set nodes) (enumerate 0 nodes) ([], [], [], []))
       (\<lambda>(call_lines, array_lines, ptr_lines, arithmatic_lines).
     bind_err (extract_nodes_with_location_info nodes)
       (\<lambda>(node_indices, node_ids, line_numbers, node_id_to_ln).
     bind_err (for_each (edge_step node_id_to_ln) edges ([], []))
       (\<lambda>(control_edges, data_edges).
          Inr (add_edges_from data_edges
                 (add_edges_from control_edges
                    \<lparr>graph = [(''file_paths'', Paths [source_path])], node = [], adj = []\<rparr>),
               [(''call'', call_lines), (''array'', array_lines),
                (''ptr'', ptr_lines), (''arith'', arithmatic_lines)]))))"

definition build_PDG ::
  "filesystem \<Rightarrow> string \<Rightarrow> string \<Rightarrow> string \<Rightarrow>
     error + (DiGraph option \<times> (string \<times> int list) list option)" where
  "build_PDG fs code_path sensi_api_path source_path =
     (let nodes_path = join code_path ''nodes.csv'';
          edges_path = join code_path ''edges.csv''
      in case fs sensi_api_path of
           None \<Rightarrow> Inl AssertionError
         | Some txt \<Rightarrow>
             (let sensi_api_set = set (map strip (split (CHR '','') txt))
              in if fs nodes_path = None \<or> fs edges_path = None then Inr (None, None)
                 else
                   bind_err (read_csv fs nodes_path) (\<lambda>nodes.
                   bind_err (read_csv fs edges_path) (\<lambda>edges.
                     if length nodes = 0 then Inr (None, None)
                     else
                       bind_err (PDG_of_tables sensi_api_set nodes edges source_path)
                         (\<lambda>(PDG, key_line_map). Inr (Some PDG, Some key_line_map))))))"

text \<open>
  For stating what the side table holds: the node has a \<^verbatim>\<open>location\<close> field that is
  not the empty string, which is the test of \<^verbatim>\<open>extract_nodes_with_location_info\<close>.
\<close>

definition has_location :: "row \<Rightarrow> bool" where
  "has_location nd = (case map_of nd ''location'' of None \<Rightarrow> False | Some location \<Rightarrow> location \<noteq> [])"

text \<open>
  For stating what the edge loop does: the edge record has the three fields, its type
  is \<open>kind\<close>, and its end points are in \<^verbatim>\<open>node_id_to_ln\<close>, at the lines \<open>p\<close>.
\<close>

definition resolves :: "(string \<times> int) list \<Rightarrow> row \<Rightarrow> string \<Rightarrow> int \<times> int \<Rightarrow> bool" where
  "resolves node_id_to_ln edge kind p =
     (case map_of edge ''type'' of None \<Rightarrow> False | Some t \<Rightarrow>
      case map_of edge ''start'' of None \<Rightarrow> False | Some s \<Rightarrow>
      case map_of edge ''end'' of None \<Rightarrow> False | Some e \<Rightarrow>
        strip t = kind \<and> map_of node_id_to_ln (strip s) = Some (fst p) \<and>
        map_of node_id_to_ln (strip e) = Some (snd p))"

section \<open>Example inputs\<close>

text \<open>
  A node table of three rows and an edge table of one row, as tab-separated text:
  node 0 is a call at \<^verbatim>\<open>10:5\<close>, node 1 carries the callee name, node 2 lies at
  line 12, and one \<^verbatim>\<open>REACHES\<close> edge runs from node 0 to node 2.
\<close>

definition example_nodes_csv :: string where
  "example_nodes_csv =
     ''key'' @ [CHR 0x09] @ ''type'' @ [CHR 0x09] @ ''code'' @ [CHR 0x09] @ ''location''
       @ [CHR 0x09] @ ''operator'' @ [CHR 0x0A]
     @ ''0'' @ [CHR 0x09] @ ''CallExpression'' @ [CHR 0x09] @ ''strcpy(a, b)'' @ [CHR 0x09]
       @ ''10:5'' @ [CHR 0x09, CHR 0x0A]
     @ ''1'' @ [CHR 0x09] @ ''Callee'' @ [CHR 0x09] @ ''strcpy'' @ [CHR 0x09, CHR 0x09, CHR 0x0A]
     @ ''2'' @ [CHR 0x09] @ ''ExpressionStatement'' @ [CHR 0x09] @ ''b'' @ [CHR 0x09]
       @ ''12:1'' @ [CHR 0x09, CHR 0x0A]"

definition example_edges_csv :: string where
  "example_edges_csv =
     ''start'' @ [CHR 0x09] @ ''end'' @ [CHR 0x09] @ ''type'' @ [CHR 0x0A]
     @ ''0'' @ [CHR 0x09] @ ''2'' @ [CHR 0x09] @ ''REACHES'' @ [CHR 0x0A]"

definition example_fs :: filesystem where
  "example_fs =
     [''data/sensiAPI.txt'' \<mapsto> ''memcpy,strcpy,strcat'',
      ''csv/a.c/nodes.csv'' \<mapsto> example_nodes_csv,
      ''csv/a.c/edges.csv'' \<mapsto> example_edges_csv]"

text \<open>A node table whose only, and so last, row is a call.\<close>

definition call_last_fs :: filesystem where
  "call_last_fs =
     [''data/sensiAPI.txt'' \<mapsto> ''memcpy,strcpy,strcat'',
      ''csv/a.c/nodes.csv'' \<mapsto>
         ''key'' @ [CHR 0x09] @ ''type'' @ [CHR 0x09] @ ''code'' @ [CHR 0x09] @ ''location''
           @ [CHR 0x09] @ ''operator'' @ [CHR 0x0A]
         @ ''0'' @ [CHR 0x09] @ ''CallExpression'' @ [CHR 0x09] @ ''strcpy(a, b)'' @ [CHR 0x09]
           @ ''10:5'' @ [CHR 0x09, CHR 0x0A],
      ''csv/a.c/edges.csv'' \<mapsto> example_edges_csv]"

text \<open>
  The example node table with five edge records: a \<^verbatim>\<open>CONTROLS\<close> and a
  \<^verbatim>\<open>REACHES\<close> edge between the same two nodes, a \<^verbatim>\<open>REACHES\<close> edge from the
  node without location, a \<^verbatim>\<open>CONTROLS\<close> edge back, and an edge of another type.
\<close>

definition both_kinds_fs :: filesystem where
  "both_kinds_fs =
     [''data/sensiAPI.txt'' \<mapsto> ''memcpy,strcpy,strcat'',
      ''csv/a.c/nodes.csv'' \<mapsto> example_nodes_csv,
      ''csv/a.c/edges.csv'' \<mapsto>
         ''start'' @ [CHR 0x09] @ ''end'' @ [CHR 0x09] @ ''type'' @ [CHR 0x0A]
         @ ''0'' @ [CHR 0x09] @ ''2'' @ [CHR 0x09] @ ''CONTROLS'' @ [CHR 0x0A]
         @ ''0'' @ [CHR 0x09] @ ''2'' @ [CHR 0x09] @ ''REACHES'' @ [CHR 0x0A]
         @ ''1'' @ [CHR 0x09] @ ''2'' @ [CHR 0x09] @ ''REACHES'' @ [CHR 0x0A]
         @ ''2'' @ [CHR 0x09] @ ''0'' @ [CHR 0x09] @ ''CONTROLS'' @ [CHR 0x0A]
         @ ''2'' @ [CHR 0x09] @ ''2'' @ [CHR 0x09] @ ''FLOWS_TO'' @ [CHR 0x0A]]"

text \<open>
  The example tables with one more node: an array access at line 20, which no edge
  touches.
\<close>

definition isolated_fs :: filesystem where
  "isolated_fs =
     [''data/sensiAPI.txt'' \<mapsto> ''memcpy,strcpy,strcat'',
      ''csv/a.c/nodes.csv'' \<mapsto>
         example_nodes_csv
         @ ''3'' @ [CHR 0x09] @ ''ArrayIndexing'' @ [CHR 0x09] @ ''a[i]'' @ [CHR 0x09]
           @ ''20:9'' @ [CHR 0x09, CHR 0x0A],
      ''csv/a.c/edges.csv'' \<mapsto> example_edges_csv]"

text \<open>
  The example tables with one more node, whose location is not a line and a column.
\<close>

definition malformed_fs :: filesystem where
  "malformed_fs =
     [''data/sensiAPI.txt'' \<mapsto> ''memcpy,strcpy,strcat'',
      ''csv/a.c/nodes.csv'' \<mapsto>
         example_nodes_csv
         @ ''3'' @ [CHR 0x09] @ ''ArrayIndexing'' @ [CHR 0x09] @ ''a[i]'' @ [CHR 0x09]
           @ ''abc'' @ [CHR 0x09, CHR 0x0A],
      ''csv/a.c/edges.csv'' \<mapsto> example_edges_csv]"

text \<open>
  A table of two columns whose only row has an empty first field: the line is a tab
  and then \<^verbatim>\<open>x\<close>.
\<close>

definition shifted_row_csv :: string where
  "shifted_row_csv = ''a'' @ [CHR 0x09] @ ''b'' @ [CHR 0x0A] @ [CHR 0x09] @ ''x'' @ [CHR 0x0A]"

text \<open>A table of two columns whose only row has one field, with blanks around it.\<close>

definition short_row_csv :: string where
  "short_row_csv = ''a'' @ [CHR 0x09] @ ''b'' @ [CHR 0x0A] @ '' x '' @ [CHR 0x0A]"

section \<open>The end-to-end example\<close>

text \<open>
  Claim C2. On the example tables, with \<^verbatim>\<open>strcpy\<close> in the list of sensitive
  functions, \<^verbatim>\<open>build_PDG\<close> puts line 10 into the category \<^verbatim>\<open>call\<close> (and
  nothing into the others) and builds a graph whose only edge is 10 \<rightarrow> 12 with tag
  \<^verbatim>\<open>d\<close>; \<^verbatim>\<open>build_XFG\<close> then yields, for key line 10, one slice with the
  vertices 10 and 12 and that one data edge.
\<close>

theorem end_to_end_example:
  "build_PDG example_fs ''csv/a.c'' ''data/sensiAPI.txt'' ''a.c'' =
     Inr (Some \<lparr>graph = [(''file_paths'', Paths [''a.c''])], node = [10, 12],
                 adj = [((10, 12), ''d'')]\<rparr>,
          Some [(''call'', [10]), (''array'', []), (''ptr'', []), (''arith'', [])])
   \<and> build_XFG
       (Some \<lparr>graph = [(''file_paths'', Paths [''a.c''])], node = [10, 12],
               adj = [((10, 12), ''d'')]\<rparr>)
       (Some [(''call'', [10]), (''array'', []), (''ptr'', []), (''arith'', [])]) =
     Inr (Some [(''call'', [\<lparr>graph = [(''file_paths'', Paths [''a.c'']), (''key_line'', Line 10)],
                             node = [10, 12], adj = [((10, 12), ''d'')]\<rparr>]),
                (''array'', []), (''ptr'', []), (''arith'', [])])"
  by code_simp

section \<open>Loops that may raise\<close>

lemma bind_err_Inl [simp]: "bind_err (Inl e) f = Inl e"
  by (simp add: bind_err_def)

lemma bind_err_Inr [simp]: "bind_err (Inr v) f = f v"
  by (simp add: bind_err_def)

lemma for_each_append:
  "for_each body (xs @ ys) s = bind_err (for_each body xs s) (for_each body ys)"
proof (induction xs arbitrary: s)
  case Nil
  show ?case by simp
next
  case (Cons x xs)
  show ?case by (cases "body x s") (simp_all add: Cons.IH)
qed

lemma for_each_total:
  "(\<And>x s. x \<in> set xs \<Longrightarrow> \<exists>s'. body x s = Inr s') \<Longrightarrow> \<exists>s'. for_each body xs s = Inr s'"
proof (induction xs arbitrary: s)
  case Nil
  show ?case by simp
next
  case (Cons x xs)
  from Cons.prems [of x s] obtain s1 where "body x s = Inr s1" by auto
  moreover from Cons.IH [of s1] Cons.prems obtain s2 where "for_each body xs s1 = Inr s2"
    by auto
  ultimately show ?case by simp
qed

lemma extract_line_number_total:
  "idx < int (length nodes) \<Longrightarrow> \<exists>ln. extract_line_number idx nodes = Inr ln"
proof (induction idx nodes rule: extract_line_number.induct)
  case (1 idx nodes)
  show ?case
  proof (cases "idx \<ge> 0")
    case False
    then show ?thesis by (simp add: extract_line_number.simps)
  next
    case True
    with "1.prems" have ix: "index nodes (nat idx) = Inr (nodes ! nat idx)"
      by (simp add: index_def)
    show ?thesis
    proof (cases "own_line (nodes ! nat idx)")
      case None
      from "1.IH" [OF True ix None] "1.prems"
      obtain ln where "extract_line_number (idx - 1) nodes = Inr ln" by auto
      with True ix None show ?thesis
        by (subst extract_line_number.simps) simp
    next
      case (Some ln)
      with True ix show ?thesis
        by (subst extract_line_number.simps) simp
    qed
  qed
qed

lemma add_line_total:
  "node_idx < length nodes \<Longrightarrow> \<exists>lines'. add_line node_idx nodes lines = Inr lines'"
proof -
  assume "node_idx < length nodes"
  then have "int node_idx < int (length nodes)" by simp
  from extract_line_number_total [OF this]
  obtain ln where "extract_line_number (int node_idx) nodes = Inr ln" ..
  then show ?thesis by (simp add: add_line_def)
qed

lemma getitem_Some: "map_of d k = Some v \<Longrightarrow> getitem d k = Inr v"
  by (simp add: getitem_def)

lemma classify_step_total:
  assumes "node_idx + 1 < length nodes"
    and "map_of nd ''type'' \<noteq> None" and "map_of (nodes ! (node_idx + 1)) ''code'' \<noteq> None"
    and "map_of nd ''operator'' \<noteq> None"
  shows "\<exists>s'. classify_step sensi_api_set nodes (node_idx, nd) s = Inr s'"
proof -
  obtain c a p r where s: "s = (c, a, p, r)" by (cases s) auto
  from assms obtain t fn oper where f: "map_of nd ''type'' = Some t"
    "map_of (nodes ! (node_idx + 1)) ''code'' = Some fn" "map_of nd ''operator'' = Some oper"
    by auto
  from assms(1) have lt: "node_idx < length nodes" by simp
  from add_line_total [OF lt] obtain c' where c': "add_line node_idx nodes c = Inr c'" by blast
  from add_line_total [OF lt] obtain a' where a': "add_line node_idx nodes a = Inr a'" by blast
  from add_line_total [OF lt] obtain p' where p': "add_line node_idx nodes p = Inr p'" by blast
  from add_line_total [OF lt] obtain r' where r': "add_line node_idx nodes r = Inr r'" by blast
  from assms(1) have ix: "index nodes (Suc node_idx) = Inr (nodes ! Suc node_idx)"
    by (simp add: index_def)
  from f ix c' a' p' r' show ?thesis
    by (simp add: classify_step_def s getitem_Some)
qed

lemma classify_step_call_last:
  assumes "map_of nd ''type'' = Some t" and "strip t = ''CallExpression''"
    and "length nodes \<le> node_idx + 1"
  shows "classify_step sensi_api_set nodes (node_idx, nd) s = Inl IndexError"
proof -
  obtain c a p r where s: "s = (c, a, p, r)" by (cases s) auto
  from assms(3) have "index nodes (Suc node_idx) = Inl IndexError" by (simp add: index_def)
  with assms show ?thesis by (simp add: classify_step_def s getitem_Some)
qed

lemma classify_call_last:
  assumes ne: "nodes \<noteq> []"
    and fields: "\<forall>node \<in> set nodes. map_of node ''type'' \<noteq> None \<and>
                   map_of node ''code'' \<noteq> None \<and> map_of node ''operator'' \<noteq> None"
    and call: "map_option strip (map_of (last nodes) ''type'') = Some ''CallExpression''"
  shows "for_each (classify_step sensi_api_set nodes) (enumerate 0 nodes) s = Inl IndexError"
proof -
  let ?n = "length nodes - 1"
  from ne have nodes: "nodes = butlast nodes @ [last nodes]" by simp
  have "enumerate 0 nodes = enumerate 0 (butlast nodes @ [last nodes])"
    using nodes by simp
  also have "\<dots> = enumerate 0 (butlast nodes) @ [(?n, last nodes)]"
    by (simp add: enumerate_append_eq)
  finally have en: "enumerate 0 nodes = enumerate 0 (butlast nodes) @ [(?n, last nodes)]" .
  have "\<exists>s'. classify_step sensi_api_set nodes x s0 = Inr s'"
    if "x \<in> set (enumerate 0 (butlast nodes))" for x s0
  proof -
    obtain i nd where x: "x = (i, nd)" by (cases x) auto
    from that x have i: "i < length (butlast nodes)" and nd: "nd = butlast nodes ! i"
      by (auto simp: in_set_enumerate_eq)
    from i have i1: "i + 1 < length nodes" by simp
    from i nd have "nd = nodes ! i" by (simp add: nth_butlast)
    with i1 have "nd \<in> set nodes" by simp
    moreover from i1 have "nodes ! (i + 1) \<in> set nodes" by simp
    ultimately show ?thesis using fields i1 unfolding x
      by (intro classify_step_total) auto
  qed
  from for_each_total [of "enumerate 0 (butlast nodes)" "classify_step sensi_api_set nodes" s, OF this]
  obtain s1 where s1: "for_each (classify_step sensi_api_set nodes) (enumerate 0 (butlast nodes)) s = Inr s1"
    by blast
  from call obtain t where t: "map_of (last nodes) ''type'' = Some t" "strip t = ''CallExpression''"
    by auto
  have "length nodes \<le> ?n + 1" by simp
  from classify_step_call_last [OF t this]
  show ?thesis
    by (simp add: en for_each_append s1)
qed


lemma read_csv_exists: "read_csv fs p = Inr rows \<Longrightarrow> fs p \<noteq> None"
  by (auto simp: read_csv_def split: option.splits)

section \<open>A call in the last row\<close>

text \<open>
  Claim C9. The callee name of a call node is read from the row after it. When the
  last row of the node table is a \<^verbatim>\<open>CallExpression\<close>, there is no such row, and
  \<^verbatim>\<open>build_PDG\<close> ends with an \<^verbatim>\<open>IndexError\<close>: the candidate is not dropped.
  The rows are those of a table with the columns \<^verbatim>\<open>type\<close>, \<^verbatim>\<open>code\<close> and
  \<^verbatim>\<open>operator\<close>, so that no earlier row fails for a missing field.
\<close>

theorem call_in_last_row_raises:
  assumes "fs sensi_api_path = Some api_text"
    and "read_csv fs (join code_path ''nodes.csv'') = Inr nodes"
    and "read_csv fs (join code_path ''edges.csv'') = Inr edges"
    and "nodes \<noteq> []"
    and "\<forall>node \<in> set nodes. map_of node ''type'' \<noteq> None \<and>
           map_of node ''code'' \<noteq> None \<and> map_of node ''operator'' \<noteq> None"
    and "map_option strip (map_of (last nodes) ''type'') = Some ''CallExpression''"
  shows "build_PDG fs code_path sensi_api_path source_path = Inl IndexError"
proof -
  from assms(2,3) have "fs (join code_path ''nodes.csv'') \<noteq> None"
    and "fs (join code_path ''edges.csv'') \<noteq> None"
    by (auto dest: read_csv_exists)
  with assms(1,2,3,4) classify_call_last [OF assms(4,5,6)] show ?thesis
    by (simp add: build_PDG_def Let_def PDG_of_tables_def)
qed

theorem call_in_last_row_raises_witness:
  "read_csv call_last_fs ''csv/a.c/nodes.csv'' =
     Inr [[(''key'', ''0''), (''type'', ''CallExpression''), (''code'', ''strcpy(a, b)''),
           (''location'', ''10:5''), (''operator'', [])]] \<and>
   build_PDG call_last_fs ''csv/a.c'' ''data/sensiAPI.txt'' ''a.c'' = Inl IndexError"
proof -
  have j: "join ''csv/a.c'' ''nodes.csv'' = ''csv/a.c/nodes.csv''"
    "join ''csv/a.c'' ''edges.csv'' = ''csv/a.c/edges.csv''"
    by (simp_all add: join_def)
  have a: "call_last_fs ''data/sensiAPI.txt'' = Some ''memcpy,strcpy,strcat''"
    by (simp add: call_last_fs_def)
  have n: "read_csv call_last_fs ''csv/a.c/nodes.csv'' =
     Inr [[(''key'', ''0''), (''type'', ''CallExpression''), (''code'', ''strcpy(a, b)''),
           (''location'', ''10:5''), (''operator'', [])]]"
    by code_simp
  have e: "read_csv call_last_fs ''csv/a.c/edges.csv'' =
     Inr [[(''start'', ''0''), (''end'', ''2''), (''type'', ''REACHES'')]]"
    by code_simp
  have "build_PDG call_last_fs ''csv/a.c'' ''data/sensiAPI.txt'' ''a.c'' = Inl IndexError"
    by (rule call_in_last_row_raises [OF a n [folded j] e [folded j]])
       (simp_all add: strip_def isspace_def)
  with n show ?thesis by simp
qed

section \<open>Missing inputs\<close>

lemma build_PDG_no_api:
  "fs sensi_api_path = None \<Longrightarrow>
     build_PDG fs code_path sensi_api_path source_path = Inl AssertionError"
  by (simp add: build_PDG_def Let_def)

lemma build_PDG_no_tables:
  "fs sensi_api_path = Some txt \<Longrightarrow>
   fs (join code_path ''nodes.csv'') = None \<or> fs (join code_path ''edges.csv'') = None \<Longrightarrow>
     build_PDG fs code_path sensi_api_path source_path = Inr (None, None)"
  by (simp add: build_PDG_def Let_def)

text \<open>
  Claim C7. A missing list of sensitive functions is an error (the assertion fails),
  whatever the tables are, since it is checked first; with the list there, a missing
  node table or edge table gives the pair \<^verbatim>\<open>(None, None)\<close> and no error.
\<close>

theorem build_PDG_failure_modes:
  "(fs sensi_api_path = None \<longrightarrow>
      build_PDG fs code_path sensi_api_path source_path = Inl AssertionError) \<and>
   (fs sensi_api_path \<noteq> None \<and>
    (fs (join code_path ''nodes.csv'') = None \<or> fs (join code_path ''edges.csv'') = None) \<longrightarrow>
      build_PDG fs code_path sensi_api_path source_path = Inr (None, None))"
  using build_PDG_no_api build_PDG_no_tables by blast

theorem build_PDG_failure_modes_witness:
  "build_PDG Map.empty ''csv/a.c'' ''data/sensiAPI.txt'' ''a.c'' = Inl AssertionError \<and>
   build_PDG [''data/sensiAPI.txt'' \<mapsto> ''strcpy''] ''csv/a.c'' ''data/sensiAPI.txt'' ''a.c''
     = Inr (None, None)"
  using build_PDG_failure_modes [of Map.empty "''data/sensiAPI.txt''" "''csv/a.c''" "''a.c''"]
    build_PDG_failure_modes [of "[''data/sensiAPI.txt'' \<mapsto> ''strcpy'']" "''data/sensiAPI.txt''"
      "''csv/a.c''" "''a.c''"]
  by (simp add: join_def)

text \<open>
  Claim C3, as stated, asks \<^verbatim>\<open>build_XFG\<close> for an empty collection of slices when
  the tables are absent. It returns \<^verbatim>\<open>None\<close> there, by its first test, and not
  the dictionary of four empty lists.
\<close>

theorem absent_tables_counterexample:
  "build_PDG [''data/sensiAPI.txt'' \<mapsto> ''strcpy''] ''csv/a.c'' ''data/sensiAPI.txt'' ''a.c''
     = Inr (None, None) \<and>
   build_XFG None None = Inr None \<and>
   build_XFG None None \<noteq> Inr (Some [(''call'', []), (''array'', []), (''ptr'', []), (''arith'', [])])"
  by (simp add: build_PDG_def build_XFG_def join_def)

text \<open>
  Claim C3, amended. With the list of sensitive functions there and a table absent,
  \<^verbatim>\<open>build_PDG\<close> returns \<^verbatim>\<open>(None, None)\<close> without an error, and
  \<^verbatim>\<open>build_XFG\<close> on that pair returns \<^verbatim>\<open>None\<close>, without an error.
\<close>

theorem absent_tables_give_None:
  assumes "fs sensi_api_path \<noteq> None"
    and "fs (join code_path ''nodes.csv'') = None \<or> fs (join code_path ''edges.csv'') = None"
  shows "(case build_PDG fs code_path sensi_api_path source_path of
            Inl e \<Rightarrow> False
          | Inr (PDG, key_line_map) \<Rightarrow>
              PDG = None \<and> key_line_map = None \<and> build_XFG PDG key_line_map = Inr None)"
proof -
  from assms(1) obtain api_text where "fs sensi_api_path = Some api_text" by auto
  from build_PDG_no_tables [OF this assms(2)]
  show ?thesis by (simp add: build_XFG_def)
qed

theorem absent_tables_give_None_witness:
  "(case build_PDG [''data/sensiAPI.txt'' \<mapsto> ''strcpy''] ''csv/a.c'' ''data/sensiAPI.txt'' ''a.c'' of
      Inl e \<Rightarrow> False
    | Inr (PDG, key_line_map) \<Rightarrow>
        PDG = None \<and> key_line_map = None \<and> build_XFG PDG key_line_map = Inr None)"
  using absent_tables_give_None [of "[''data/sensiAPI.txt'' \<mapsto> ''strcpy'']" "''data/sensiAPI.txt''"
      "''csv/a.c''" "''a.c''"]
  by (simp add: join_def)


section \<open>Edges of the graph\<close>

lemma bind_err_eq_Inr:
  "bind_err r f = Inr y \<longleftrightarrow> (\<exists>v. r = Inr v \<and> f v = Inr y)"
  by (cases r) simp_all

lemma getitem_eq_Inr: "getitem d k = Inr v \<longleftrightarrow> map_of d k = Some v"
  by (simp add: getitem_def split: option.splits)

lemma adj_add_edge: "adj (add_edge (u, v, cd) G) = AList.update (u, v) cd (adj G)"
  by (simp add: add_edge_def)

lemma node_add_edge: "set (node (add_edge (u, v, cd) G)) = insert u (insert v (set (node G)))"
  by (auto simp: add_edge_def add_node_def)

lemma add_edges_from_Nil: "add_edges_from [] G = G"
  by (simp add: add_edges_from_def)

lemma add_edges_from_Cons: "add_edges_from (x # xs) G = add_edges_from xs (add_edge x G)"
  by (simp add: add_edges_from_def)

lemma distinct_add_edges_from:
  "distinct (map fst (adj G)) \<Longrightarrow> distinct (map fst (adj (add_edges_from es G)))"
proof (induction es arbitrary: G)
  case Nil
  then show ?case by (simp add: add_edges_from_Nil)
next
  case (Cons x es)
  obtain u v cd where x: "x = (u, v, cd)" by (cases x) auto
  from Cons.prems have "distinct (map fst (adj (add_edge x G)))"
    by (simp add: x adj_add_edge distinct_update)
  from Cons.IH [OF this] show ?case by (simp add: add_edges_from_Cons)
qed

lemma map_of_add_edges_from:
  assumes "\<forall>x \<in> set es. snd (snd x) = tag"
  shows "map_of (adj (add_edges_from es G)) (a, b) =
           (if (a, b, tag) \<in> set es then Some tag else map_of (adj G) (a, b))"
  using assms
proof (induction es arbitrary: G)
  case Nil
  show ?case by (simp add: add_edges_from_Nil)
next
  case (Cons x es)
  obtain u v cd where x: "x = (u, v, cd)" by (cases x) auto
  with Cons.prems have cd: "cd = tag" by simp
  from Cons.prems have "\<forall>x \<in> set es. snd (snd x) = tag" by simp
  from Cons.IH [OF this, of "add_edge x G"]
  show ?case
    by (auto simp: add_edges_from_Cons x cd adj_add_edge update_conv')
qed

lemma nodes_add_edges_from:
  assumes "set (node G) = fst ` fst ` set (adj G) \<union> snd ` fst ` set (adj G)"
  shows "set (node (add_edges_from es G)) =
           fst ` fst ` set (adj (add_edges_from es G)) \<union> snd ` fst ` set (adj (add_edges_from es G))"
  using assms
proof (induction es arbitrary: G)
  case Nil
  then show ?case by (simp add: add_edges_from_Nil)
next
  case (Cons x es)
  obtain u v cd where x: "x = (u, v, cd)" by (cases x) auto
  have "fst ` set (adj (add_edge x G)) = insert (u, v) (fst ` set (adj G))"
    by (simp add: x adj_add_edge dom_update)
  then have "set (node (add_edge x G)) =
      fst ` fst ` set (adj (add_edge x G)) \<union> snd ` fst ` set (adj (add_edge x G))"
    using Cons.prems by (simp add: x node_add_edge) auto
  from Cons.IH [OF this] show ?case by (simp add: add_edges_from_Cons)
qed

lemma filter_key_distinct:
  "distinct (map fst al) \<Longrightarrow> map_of al k = Some v \<Longrightarrow> filter (\<lambda>x. fst x = k) al = [(k, v)]"
proof (induction al)
  case Nil
  then show ?case by simp
next
  case (Cons x al)
  show ?case
  proof (cases "fst x = k")
    case True
    with Cons.prems have "x = (k, v)" by (cases x) auto
    moreover from Cons.prems(1) have "fst x \<notin> fst ` set al" by simp
    with True have "\<forall>y \<in> set al. fst y \<noteq> k" by (auto simp: image_iff)
    then have "filter (\<lambda>x. fst x = k) al = []" by (simp add: filter_empty_conv)
    ultimately show ?thesis by simp
  next
    case False
    with Cons show ?thesis by simp
  qed
qed


lemma edge_step_sets:
  assumes "edge_step m edge (ce, de) = Inr (ce', de')"
  shows "(x \<in> set ce' \<longleftrightarrow>
            x \<in> set ce \<or> snd (snd x) = ''c'' \<and> resolves m edge ''CONTROLS'' (fst x, fst (snd x))) \<and>
         (x \<in> set de' \<longleftrightarrow>
            x \<in> set de \<or> snd (snd x) = ''d'' \<and> resolves m edge ''REACHES'' (fst x, fst (snd x)))"
proof -
  from assms obtain t s e where f: "map_of edge ''type'' = Some t"
    "map_of edge ''start'' = Some s" "map_of edge ''end'' = Some e"
    by (auto simp: edge_step_def bind_err_eq_Inr getitem_eq_Inr)
  show ?thesis
  proof (cases "map_of m (strip s)")
    case None
    with assms f show ?thesis
      by (simp add: edge_step_def getitem_Some resolves_def)
  next
    case a: (Some a)
    show ?thesis
    proof (cases "map_of m (strip e)")
      case None
      with assms f a show ?thesis
        by (simp add: edge_step_def getitem_Some resolves_def)
    next
      case b: (Some b)
      from assms f a b have "ce' = (if strip t = ''CONTROLS'' then ce @ [(a, b, ''c'')] else ce)"
        and "de' = (if strip t = ''REACHES'' then de @ [(a, b, ''d'')] else de)"
        by (simp_all add: edge_step_def getitem_Some)
      with f a b show ?thesis
        by (cases x) (auto simp: resolves_def)
    qed
  qed
qed

lemma for_each_edge_step_sets:
  "for_each (edge_step m) edges (ce, de) = Inr (ce', de') \<Longrightarrow>
     (x \<in> set ce' \<longleftrightarrow> x \<in> set ce \<or>
        snd (snd x) = ''c'' \<and> (\<exists>edge \<in> set edges. resolves m edge ''CONTROLS'' (fst x, fst (snd x)))) \<and>
     (x \<in> set de' \<longleftrightarrow> x \<in> set de \<or>
        snd (snd x) = ''d'' \<and> (\<exists>edge \<in> set edges. resolves m edge ''REACHES'' (fst x, fst (snd x))))"
proof (induction edges arbitrary: ce de)
  case Nil
  then show ?case by simp
next
  case (Cons edge edges)
  from Cons.prems obtain ce1 de1 where
    st: "edge_step m edge (ce, de) = Inr (ce1, de1)"
    and re: "for_each (edge_step m) edges (ce1, de1) = Inr (ce', de')"
    by (auto simp: bind_err_eq_Inr)
  from edge_step_sets [OF st, of x] Cons.IH [OF re] show ?case
    by (simp only: set_simps bex_simps) blast
qed

lemma PDG_adj:
  assumes "for_each (edge_step m) edges ([], []) = Inr (ce, de)"
    and "adj G = []"
  shows "map_of (adj (add_edges_from de (add_edges_from ce G))) (a, b) =
           (if \<exists>edge \<in> set edges. resolves m edge ''REACHES'' (a, b) then Some ''d''
            else if \<exists>edge \<in> set edges. resolves m edge ''CONTROLS'' (a, b) then Some ''c''
            else None)"
proof -
  note sets = for_each_edge_step_sets [OF assms(1)]
  have c: "\<forall>x \<in> set ce. snd (snd x) = ''c''" using sets by simp
  have d: "\<forall>x \<in> set de. snd (snd x) = ''d''" using sets by simp
  have ic: "(a, b, ''c'') \<in> set ce \<longleftrightarrow> (\<exists>edge \<in> set edges. resolves m edge ''CONTROLS'' (a, b))"
    using sets [of "(a, b, ''c'')"] by simp
  have id: "(a, b, ''d'') \<in> set de \<longleftrightarrow> (\<exists>edge \<in> set edges. resolves m edge ''REACHES'' (a, b))"
    using sets [of "(a, b, ''d'')"] by simp
  show ?thesis
    by (simp add: map_of_add_edges_from [OF d] map_of_add_edges_from [OF c] ic id assms(2))
qed

lemma PDG_of_tables_Inr:
  assumes "PDG_of_tables S nodes edges src = Inr (PDG, kl)"
  obtains c a p r ni ids lns m ce de where
    "for_each (classify_step S nodes) (enumerate 0 nodes) ([], [], [], []) = Inr (c, a, p, r)"
    "extract_nodes_with_location_info nodes = Inr (ni, ids, lns, m)"
    "for_each (edge_step m) edges ([], []) = Inr (ce, de)"
    "PDG = add_edges_from de (add_edges_from ce
             \<lparr>graph = [(''file_paths'', Paths [src])], node = [], adj = []\<rparr>)"
    "kl = [(''call'', c), (''array'', a), (''ptr'', p), (''arith'', r)]"
proof -
  from assms obtain k1 where k1:
    "for_each (classify_step S nodes) (enumerate 0 nodes) ([], [], [], []) = Inr k1"
    by (auto simp: PDG_of_tables_def bind_err_eq_Inr)
  obtain c a p r where k: "k1 = (c, a, p, r)" by (cases k1) auto
  from assms k1 k obtain i1 where i1: "extract_nodes_with_location_info nodes = Inr i1"
    by (auto simp: PDG_of_tables_def bind_err_eq_Inr)
  obtain ni ids lns m where i: "i1 = (ni, ids, lns, m)" by (cases i1) auto
  from assms k1 k i1 i obtain e1 where e1: "for_each (edge_step m) edges ([], []) = Inr e1"
    by (auto simp: PDG_of_tables_def bind_err_eq_Inr)
  obtain ce de where e: "e1 = (ce, de)" by (cases e1) auto
  from assms k1 k i1 i e1 e have
    "PDG = add_edges_from de (add_edges_from ce
             \<lparr>graph = [(''file_paths'', Paths [src])], node = [], adj = []\<rparr>)"
    "kl = [(''call'', c), (''array'', a), (''ptr'', p), (''arith'', r)]"
    by (simp_all add: PDG_of_tables_def)
  with k1 k i1 i e1 e that show thesis by blast
qed

lemma build_PDG_Some:
  assumes "build_PDG fs code_path sensi_api_path source_path = Inr (Some PDG, key_line_map)"
  obtains api nodes edges kl where
    "fs sensi_api_path = Some api"
    "read_csv fs (join code_path ''nodes.csv'') = Inr nodes"
    "read_csv fs (join code_path ''edges.csv'') = Inr edges"
    "nodes \<noteq> []" "key_line_map = Some kl"
    "PDG_of_tables (set (map strip (split (CHR '','') api))) nodes edges source_path = Inr (PDG, kl)"
proof -
  from assms obtain api where api: "fs sensi_api_path = Some api"
    by (cases "fs sensi_api_path") (simp_all add: build_PDG_def)
  from assms api have ex: "fs (join code_path ''nodes.csv'') \<noteq> None"
    "fs (join code_path ''edges.csv'') \<noteq> None"
    by (auto simp: build_PDG_def Let_def split: if_splits)
  then obtain nodes edges where n: "read_csv fs (join code_path ''nodes.csv'') = Inr nodes"
    and e: "read_csv fs (join code_path ''edges.csv'') = Inr edges"
    by (auto simp: read_csv_def)
  from assms api ex n e have ne: "nodes \<noteq> []"
    by (auto simp: build_PDG_def Let_def split: if_splits)
  from assms api ex n e ne obtain r where
    r: "PDG_of_tables (set (map strip (split (CHR '','') api))) nodes edges source_path = Inr r"
    by (auto simp: build_PDG_def Let_def bind_err_eq_Inr)
  obtain G kl where G: "r = (G, kl)" by (cases r) auto
  from assms api ex n e ne r G have "G = PDG" "key_line_map = Some kl"
    by (simp_all add: build_PDG_def Let_def)
  with api n e ne r G that show thesis by blast
qed

lemma for_each_edge_step_fields:
  "for_each (edge_step m) edges s = Inr s' \<Longrightarrow> edge \<in> set edges \<Longrightarrow>
     map_of edge ''type'' \<noteq> None \<and> map_of edge ''start'' \<noteq> None \<and> map_of edge ''end'' \<noteq> None"
proof (induction edges arbitrary: s)
  case Nil
  then show ?case by simp
next
  case (Cons x edges)
  obtain ce de where s: "s = (ce, de)" by (cases s) auto
  from Cons.prems(1) obtain s1 where st: "edge_step m x s = Inr s1"
    and re: "for_each (edge_step m) edges s1 = Inr s'"
    by (auto simp: bind_err_eq_Inr)
  from st have "map_of x ''type'' \<noteq> None \<and> map_of x ''start'' \<noteq> None \<and> map_of x ''end'' \<noteq> None"
    by (auto simp: s edge_step_def bind_err_eq_Inr getitem_eq_Inr)
  with Cons.IH [OF re] Cons.prems(2) show ?case by auto
qed

lemma both_kinds_tables:
  "read_csv both_kinds_fs ''csv/a.c/nodes.csv'' =
     Inr [[(''key'', ''0''), (''type'', ''CallExpression''), (''code'', ''strcpy(a, b)''),
           (''location'', ''10:5''), (''operator'', [])],
          [(''key'', ''1''), (''type'', ''Callee''), (''code'', ''strcpy''),
           (''location'', []), (''operator'', [])],
          [(''key'', ''2''), (''type'', ''ExpressionStatement''), (''code'', ''b''),
           (''location'', ''12:1''), (''operator'', [])]]"
  "read_csv both_kinds_fs ''csv/a.c/edges.csv'' =
     Inr [[(''start'', ''0''), (''end'', ''2''), (''type'', ''CONTROLS'')],
          [(''start'', ''0''), (''end'', ''2''), (''type'', ''REACHES'')],
          [(''start'', ''1''), (''end'', ''2''), (''type'', ''REACHES'')],
          [(''start'', ''2''), (''end'', ''0''), (''type'', ''CONTROLS'')],
          [(''start'', ''2''), (''end'', ''2''), (''type'', ''FLOWS_TO'')]]"
  by code_simp+

lemma both_kinds_info:
  "extract_nodes_with_location_info
     [[(''key'', ''0''), (''type'', ''CallExpression''), (''code'', ''strcpy(a, b)''),
       (''location'', ''10:5''), (''operator'', [])],
      [(''key'', ''1''), (''type'', ''Callee''), (''code'', ''strcpy''),
       (''location'', []), (''operator'', [])],
      [(''key'', ''2''), (''type'', ''ExpressionStatement''), (''code'', ''b''),
       (''location'', ''12:1''), (''operator'', [])]] =
   Inr ([0, 2], [''0'', ''2''], [10, 12], [(''0'', 10), (''2'', 12)])"
  by code_simp

lemma both_kinds_PDG:
  "build_PDG both_kinds_fs ''csv/a.c'' ''data/sensiAPI.txt'' ''a.c'' =
     Inr (Some \<lparr>graph = [(''file_paths'', Paths [''a.c''])], node = [10, 12],
                 adj = [((10, 12), ''d''), ((12, 10), ''c'')]\<rparr>,
          Some [(''call'', [10]), (''array'', []), (''ptr'', []), (''arith'', [])])"
  by code_simp

lemma join_csv:
  "join ''csv/a.c'' ''nodes.csv'' = ''csv/a.c/nodes.csv''"
  "join ''csv/a.c'' ''edges.csv'' = ''csv/a.c/edges.csv''"
  by (simp_all add: join_def)

text \<open>
  Claim C10. A graph returned by \<^verbatim>\<open>build_PDG\<close> has at most one edge for each
  ordered pair of lines: the keys of its edge dictionary are distinct. When a
  \<^verbatim>\<open>CONTROLS\<close> record and a \<^verbatim>\<open>REACHES\<close> record of the edge table resolve to
  the same pair of lines, the graph has exactly one edge for the pair, and its tag is
  \<^verbatim>\<open>d\<close>, since the data edges are added after the control edges.
\<close>

theorem PDG_one_edge_per_pair:
  assumes "build_PDG fs code_path sensi_api_path source_path = Inr (Some PDG, key_line_map)"
  shows "distinct (map fst (adj PDG)) \<and>
    (\<exists>nodes edges node_indices node_ids line_numbers node_id_to_ln.
       read_csv fs (join code_path ''nodes.csv'') = Inr nodes \<and>
       read_csv fs (join code_path ''edges.csv'') = Inr edges \<and>
       extract_nodes_with_location_info nodes =
         Inr (node_indices, node_ids, line_numbers, node_id_to_ln) \<and>
       (\<forall>start_ln end_ln.
          (\<exists>edge \<in> set edges. resolves node_id_to_ln edge ''CONTROLS'' (start_ln, end_ln)) \<and>
          (\<exists>edge \<in> set edges. resolves node_id_to_ln edge ''REACHES'' (start_ln, end_ln)) \<longrightarrow>
          filter (\<lambda>x. fst x = (start_ln, end_ln)) (adj PDG) = [((start_ln, end_ln), ''d'')]))"
proof -
  from assms obtain api nodes edges kl where
    n: "read_csv fs (join code_path ''nodes.csv'') = Inr nodes"
    and e: "read_csv fs (join code_path ''edges.csv'') = Inr edges"
    and t: "PDG_of_tables (set (map strip (split (CHR '','') api))) nodes edges source_path
              = Inr (PDG, kl)"
    by (rule build_PDG_Some)
  from t obtain ni ids lns m ce de where
    i: "extract_nodes_with_location_info nodes = Inr (ni, ids, lns, m)"
    and es: "for_each (edge_step m) edges ([], []) = Inr (ce, de)"
    and G: "PDG = add_edges_from de (add_edges_from ce
             \<lparr>graph = [(''file_paths'', Paths [source_path])], node = [], adj = []\<rparr>)"
    by (rule PDG_of_tables_Inr)
  have d: "distinct (map fst (adj PDG))"
    unfolding G by (intro distinct_add_edges_from) simp
  have "filter (\<lambda>x. fst x = (a, b)) (adj PDG) = [((a, b), ''d'')]"
    if "\<exists>edge \<in> set edges. resolves m edge ''REACHES'' (a, b)" for a b
  proof -
    from that have "map_of (adj PDG) (a, b) = Some ''d''"
      unfolding G by (simp add: PDG_adj [OF es])
    with d show ?thesis by (rule filter_key_distinct)
  qed
  with d n e i show ?thesis by blast
qed

theorem PDG_one_edge_per_pair_witness:
  "build_PDG both_kinds_fs ''csv/a.c'' ''data/sensiAPI.txt'' ''a.c'' =
     Inr (Some \<lparr>graph = [(''file_paths'', Paths [''a.c''])], node = [10, 12],
                 adj = [((10, 12), ''d''), ((12, 10), ''c'')]\<rparr>,
          Some [(''call'', [10]), (''array'', []), (''ptr'', []), (''arith'', [])]) \<and>
   resolves [(''0'', 10), (''2'', 12)]
     [(''start'', ''0''), (''end'', ''2''), (''type'', ''CONTROLS'')] ''CONTROLS'' (10, 12) \<and>
   resolves [(''0'', 10), (''2'', 12)]
     [(''start'', ''0''), (''end'', ''2''), (''type'', ''REACHES'')] ''REACHES'' (10, 12) \<and>
   filter (\<lambda>x. fst x = (10, 12)) [((10 :: int, 12 :: int), ''d''), ((12, 10), ''c'')]
     = [((10, 12), ''d'')]"
proof -
  let ?G = "\<lparr>graph = [(''file_paths'', Paths [''a.c''])], node = [10, 12],
              adj = [((10, 12), ''d''), ((12, 10), ''c'')]\<rparr>"
  have c: "resolves [(''0'', 10), (''2'', 12)]
     [(''start'', ''0''), (''end'', ''2''), (''type'', ''CONTROLS'')] ''CONTROLS'' (10, 12)"
    by (simp add: resolves_def strip_def isspace_def)
  have r: "resolves [(''0'', 10), (''2'', 12)]
     [(''start'', ''0''), (''end'', ''2''), (''type'', ''REACHES'')] ''REACHES'' (10, 12)"
    by (simp add: resolves_def strip_def isspace_def)
  from PDG_one_edge_per_pair [OF both_kinds_PDG]
  obtain nodes edges ni ids lns m where
    n: "read_csv both_kinds_fs (join ''csv/a.c'' ''nodes.csv'') = Inr nodes"
    and e: "read_csv both_kinds_fs (join ''csv/a.c'' ''edges.csv'') = Inr edges"
    and i: "extract_nodes_with_location_info nodes = Inr (ni, ids, lns, m)"
    and f: "\<And>a b. (\<exists>edge \<in> set edges. resolves m edge ''CONTROLS'' (a, b)) \<and>
          (\<exists>edge \<in> set edges. resolves m edge ''REACHES'' (a, b)) \<Longrightarrow>
          filter (\<lambda>x. fst x = (a, b)) (adj ?G) = [((a, b), ''d'')]"
    by auto
  from n e have nodes: "nodes = [[(''key'', ''0''), (''type'', ''CallExpression''), (''code'', ''strcpy(a, b)''),
           (''location'', ''10:5''), (''operator'', [])],
          [(''key'', ''1''), (''type'', ''Callee''), (''code'', ''strcpy''),
           (''location'', []), (''operator'', [])],
          [(''key'', ''2''), (''type'', ''ExpressionStatement''), (''code'', ''b''),
           (''location'', ''12:1''), (''operator'', [])]]"
    and edges: "edges = [[(''start'', ''0''), (''end'', ''2''), (''type'', ''CONTROLS'')],
          [(''start'', ''0''), (''end'', ''2''), (''type'', ''REACHES'')],
          [(''start'', ''1''), (''end'', ''2''), (''type'', ''REACHES'')],
          [(''start'', ''2''), (''end'', ''0''), (''type'', ''CONTROLS'')],
          [(''start'', ''2''), (''end'', ''2''), (''type'', ''FLOWS_TO'')]]"
    by (simp_all add: join_csv both_kinds_tables)
  from i have m: "m = [(''0'', 10), (''2'', 12)]"
    by (simp add: nodes both_kinds_info)
  have "filter (\<lambda>x. fst x = (10, 12)) (adj ?G) = [((10, 12), ''d'')]"
    by (rule f) (use c r in \<open>simp add: m edges\<close>)
  with c r both_kinds_PDG show ?thesis by simp
qed

lemma edge_step_resolved:
  assumes "map_of edge ''type'' = Some t" and "map_of edge ''start'' = Some s"
    and "map_of edge ''end'' = Some e"
  shows "edge_step m edge (ce, de) =
     (case map_of m (strip s) of
        None \<Rightarrow> Inr (ce, de)
      | Some a \<Rightarrow>
          (case map_of m (strip e) of
             None \<Rightarrow> Inr (ce, de)
           | Some b \<Rightarrow>
               Inr (if strip t = ''CONTROLS'' then ce @ [(a, b, ''c'')] else ce,
                    if strip t = ''REACHES'' then de @ [(a, b, ''d'')] else de)))"
  using assms by (simp add: edge_step_def getitem_Some)

text \<open>
  Claim C6, as stated, lets every resolved \<^verbatim>\<open>CONTROLS\<close> record produce a
  control-tagged edge of the graph. In the second example the first record is such a
  record for the lines 10 and 12, and the graph has no edge from 10 to 12 with tag
  \<^verbatim>\<open>c\<close>: the \<^verbatim>\<open>REACHES\<close> record for the same pair has overwritten the tag.
\<close>

theorem edge_record_counterexample:
  "read_csv both_kinds_fs ''csv/a.c/edges.csv'' =
     Inr [[(''start'', ''0''), (''end'', ''2''), (''type'', ''CONTROLS'')],
          [(''start'', ''0''), (''end'', ''2''), (''type'', ''REACHES'')],
          [(''start'', ''1''), (''end'', ''2''), (''type'', ''REACHES'')],
          [(''start'', ''2''), (''end'', ''0''), (''type'', ''CONTROLS'')],
          [(''start'', ''2''), (''end'', ''2''), (''type'', ''FLOWS_TO'')]] \<and>
   resolves [(''0'', 10), (''2'', 12)]
     [(''start'', ''0''), (''end'', ''2''), (''type'', ''CONTROLS'')] ''CONTROLS'' (10, 12) \<and>
   build_PDG both_kinds_fs ''csv/a.c'' ''data/sensiAPI.txt'' ''a.c'' =
     Inr (Some \<lparr>graph = [(''file_paths'', Paths [''a.c''])], node = [10, 12],
                 adj = [((10, 12), ''d''), ((12, 10), ''c'')]\<rparr>,
          Some [(''call'', [10]), (''array'', []), (''ptr'', []), (''arith'', [])]) \<and>
   ((10 :: int, 12 :: int), ''c'') \<notin> set [((10, 12), ''d''), ((12, 10), ''c'')]"
  by code_simp

text \<open>
  Claim C6, amended. For an edge record with the fields \<^verbatim>\<open>type\<close>, \<^verbatim>\<open>start\<close>
  and \<^verbatim>\<open>end\<close>: when one of its end points is not in \<^verbatim>\<open>node_id_to_ln\<close>, the
  round of the loop leaves both edge lists as they are and raises nothing; when both
  are, a \<^verbatim>\<open>CONTROLS\<close> record appends exactly one control-tagged entry from the start
  line to the end line, a \<^verbatim>\<open>REACHES\<close> record exactly one data-tagged entry, and a
  record of another type nothing. In the graph that \<^verbatim>\<open>build_PDG\<close> returns, a
  resolved \<^verbatim>\<open>REACHES\<close> record has exactly one edge for its pair of lines, tagged
  \<^verbatim>\<open>d\<close>; a resolved \<^verbatim>\<open>CONTROLS\<close> record has exactly one edge for its pair,
  tagged \<^verbatim>\<open>c\<close> unless some \<^verbatim>\<open>REACHES\<close> record resolves to the same pair,
  and then \<^verbatim>\<open>d\<close>; and every edge of the graph comes from a resolved record of
  one of these two types.
\<close>

theorem edge_record_contribution:
  assumes "map_of edge ''type'' = Some t" and "map_of edge ''start'' = Some s"
    and "map_of edge ''end'' = Some e"
  shows
   "(map_of m (strip s) = None \<or> map_of m (strip e) = None \<longrightarrow>
       edge_step m edge (ce, de) = Inr (ce, de)) \<and>
    (\<forall>a b. map_of m (strip s) = Some a \<and> map_of m (strip e) = Some b \<longrightarrow>
       edge_step m edge (ce, de) =
         Inr (if strip t = ''CONTROLS'' then ce @ [(a, b, ''c'')] else ce,
              if strip t = ''REACHES'' then de @ [(a, b, ''d'')] else de)) \<and>
    (\<forall>fs code_path sensi_api_path source_path PDG key_line_map nodes edges ni ids lns.
       build_PDG fs code_path sensi_api_path source_path = Inr (Some PDG, key_line_map) \<and>
       read_csv fs (join code_path ''nodes.csv'') = Inr nodes \<and>
       read_csv fs (join code_path ''edges.csv'') = Inr edges \<and>
       extract_nodes_with_location_info nodes = Inr (ni, ids, lns, m) \<and>
       edge \<in> set edges \<longrightarrow>
         (\<forall>a b. map_of m (strip s) = Some a \<and> map_of m (strip e) = Some b \<longrightarrow>
            (strip t = ''CONTROLS'' \<longrightarrow>
               filter (\<lambda>x. fst x = (a, b)) (adj PDG) =
                 [((a, b), if \<exists>r \<in> set edges. resolves m r ''REACHES'' (a, b)
                           then ''d'' else ''c'')]) \<and>
            (strip t = ''REACHES'' \<longrightarrow>
               filter (\<lambda>x. fst x = (a, b)) (adj PDG) = [((a, b), ''d'')])) \<and>
         (\<forall>p tag. (p, tag) \<in> set (adj PDG) \<longrightarrow>
            (\<exists>r \<in> set edges. resolves m r ''CONTROLS'' p \<or> resolves m r ''REACHES'' p)))"
proof (intro conjI allI impI)
  assume "map_of m (strip s) = None \<or> map_of m (strip e) = None"
  then show "edge_step m edge (ce, de) = Inr (ce, de)"
    by (auto simp: edge_step_resolved [OF assms] split: option.splits)
next
  fix a b
  assume "map_of m (strip s) = Some a \<and> map_of m (strip e) = Some b"
  then show "edge_step m edge (ce, de) =
         Inr (if strip t = ''CONTROLS'' then ce @ [(a, b, ''c'')] else ce,
              if strip t = ''REACHES'' then de @ [(a, b, ''d'')] else de)"
    by (simp add: edge_step_resolved [OF assms])
next
  fix fs code_path sensi_api_path source_path PDG key_line_map nodes edges ni ids lns
  assume h: "build_PDG fs code_path sensi_api_path source_path = Inr (Some PDG, key_line_map) \<and>
       read_csv fs (join code_path ''nodes.csv'') = Inr nodes \<and>
       read_csv fs (join code_path ''edges.csv'') = Inr edges \<and>
       extract_nodes_with_location_info nodes = Inr (ni, ids, lns, m) \<and>
       edge \<in> set edges"
  then have b: "build_PDG fs code_path sensi_api_path source_path = Inr (Some PDG, key_line_map)"
    by simp
  from b obtain api nodes' edges' kl where
    "read_csv fs (join code_path ''nodes.csv'') = Inr nodes'"
    "read_csv fs (join code_path ''edges.csv'') = Inr edges'"
    "PDG_of_tables (set (map strip (split (CHR '','') api))) nodes' edges' source_path
              = Inr (PDG, kl)"
    by (rule build_PDG_Some)
  with h have t: "PDG_of_tables (set (map strip (split (CHR '','') api))) nodes edges source_path
              = Inr (PDG, kl)" by simp
  from t obtain ni' ids' lns' m' cs ds where
    "extract_nodes_with_location_info nodes = Inr (ni', ids', lns', m')"
    and es': "for_each (edge_step m') edges ([], []) = Inr (cs, ds)"
    and G: "PDG = add_edges_from ds (add_edges_from cs
             \<lparr>graph = [(''file_paths'', Paths [source_path])], node = [], adj = []\<rparr>)"
    by (rule PDG_of_tables_Inr)
  with h have es: "for_each (edge_step m) edges ([], []) = Inr (cs, ds)" by simp
  have d: "distinct (map fst (adj PDG))"
    unfolding G by (intro distinct_add_edges_from) simp
  have look: "map_of (adj PDG) (a, b) =
           (if \<exists>r \<in> set edges. resolves m r ''REACHES'' (a, b) then Some ''d''
            else if \<exists>r \<in> set edges. resolves m r ''CONTROLS'' (a, b) then Some ''c''
            else None)" for a b
    unfolding G by (simp add: PDG_adj [OF es])
  from h have mem: "edge \<in> set edges" by simp
  {
    fix a b
    assume ab: "map_of m (strip s) = Some a \<and> map_of m (strip e) = Some b"
    {
      assume "strip t = ''CONTROLS''"
      with ab assms have "resolves m edge ''CONTROLS'' (a, b)" by (simp add: resolves_def)
      with mem have "map_of (adj PDG) (a, b) =
          Some (if \<exists>r \<in> set edges. resolves m r ''REACHES'' (a, b) then ''d'' else ''c'')"
        by (auto simp: look)
      with d show "filter (\<lambda>x. fst x = (a, b)) (adj PDG) =
                 [((a, b), if \<exists>r \<in> set edges. resolves m r ''REACHES'' (a, b)
                           then ''d'' else ''c'')]"
        by (rule filter_key_distinct)
    }
    {
      assume "strip t = ''REACHES''"
      with ab assms have "resolves m edge ''REACHES'' (a, b)" by (simp add: resolves_def)
      with mem have "map_of (adj PDG) (a, b) = Some ''d''"
        by (auto simp: look)
      with d show "filter (\<lambda>x. fst x = (a, b)) (adj PDG) = [((a, b), ''d'')]"
        by (rule filter_key_distinct)
    }
  }
  {
    fix p tag
    assume "(p, tag) \<in> set (adj PDG)"
    then have "p \<in> fst ` set (adj PDG)" by force
    then have "map_of (adj PDG) p \<noteq> None"
      by (simp add: map_of_eq_None_iff)
    then show "\<exists>r \<in> set edges. resolves m r ''CONTROLS'' p \<or> resolves m r ''REACHES'' p"
      using look [of "fst p" "snd p"] by (auto split: if_splits)
  }
qed

theorem edge_record_contribution_witness:
  "edge_step [(''0'', 10), (''2'', 12)]
     [(''start'', ''0''), (''end'', ''2''), (''type'', ''CONTROLS'')] ([], []) =
     Inr ([(10, 12, ''c'')], []) \<and>
   edge_step [(''0'', 10), (''2'', 12)]
     [(''start'', ''1''), (''end'', ''2''), (''type'', ''REACHES'')] ([], []) = Inr ([], []) \<and>
   filter (\<lambda>x. fst x = (10, 12)) [((10 :: int, 12 :: int), ''d''), ((12, 10), ''c'')] =
     [((10, 12), ''d'')] \<and>
   filter (\<lambda>x. fst x = (12, 10)) [((10 :: int, 12 :: int), ''d''), ((12, 10), ''c'')] =
     [((12, 10), ''c'')]"
proof -
  let ?m = "[(''0'', 10 :: int), (''2'', 12)]"
  let ?c = "[(''start'', ''0''), (''end'', ''2''), (''type'', ''CONTROLS'')]"
  let ?u = "[(''start'', ''1''), (''end'', ''2''), (''type'', ''REACHES'')]"
  let ?b = "[(''start'', ''2''), (''end'', ''0''), (''type'', ''CONTROLS'')]"
  let ?edges = "[?c, [(''start'', ''0''), (''end'', ''2''), (''type'', ''REACHES'')], ?u, ?b,
                 [(''start'', ''2''), (''end'', ''2''), (''type'', ''FLOWS_TO'')]]"
  let ?G = "\<lparr>graph = [(''file_paths'', Paths [''a.c''])], node = [10, 12],
              adj = [((10, 12), ''d''), ((12, 10), ''c'')]\<rparr>"
  have st: "strip ''0'' = ''0''" "strip ''1'' = ''1''" "strip ''2'' = ''2''"
    "strip ''CONTROLS'' = ''CONTROLS''" "strip ''REACHES'' = ''REACHES''"
    by (simp_all add: strip_def isspace_def)
  have run: "build_PDG both_kinds_fs ''csv/a.c'' ''data/sensiAPI.txt'' ''a.c'' =
       Inr (Some ?G, Some [(''call'', [10]), (''array'', []), (''ptr'', []), (''arith'', [])]) \<and>
     read_csv both_kinds_fs (join ''csv/a.c'' ''nodes.csv'') =
       Inr [[(''key'', ''0''), (''type'', ''CallExpression''), (''code'', ''strcpy(a, b)''),
           (''location'', ''10:5''), (''operator'', [])],
          [(''key'', ''1''), (''type'', ''Callee''), (''code'', ''strcpy''),
           (''location'', []), (''operator'', [])],
          [(''key'', ''2''), (''type'', ''ExpressionStatement''), (''code'', ''b''),
           (''location'', ''12:1''), (''operator'', [])]] \<and>
     read_csv both_kinds_fs (join ''csv/a.c'' ''edges.csv'') = Inr ?edges \<and>
     extract_nodes_with_location_info
        [[(''key'', ''0''), (''type'', ''CallExpression''), (''code'', ''strcpy(a, b)''),
           (''location'', ''10:5''), (''operator'', [])],
          [(''key'', ''1''), (''type'', ''Callee''), (''code'', ''strcpy''),
           (''location'', []), (''operator'', [])],
          [(''key'', ''2''), (''type'', ''ExpressionStatement''), (''code'', ''b''),
           (''location'', ''12:1''), (''operator'', [])]] =
       Inr ([0, 2], [''0'', ''2''], [10, 12], ?m)"
    by (simp add: both_kinds_PDG both_kinds_tables both_kinds_info join_csv)
  have r: "\<exists>r \<in> set ?edges. resolves ?m r ''REACHES'' (10, 12)"
    by (simp add: resolves_def st)
  have nr: "\<not> (\<exists>r \<in> set ?edges. resolves ?m r ''REACHES'' (12, 10))"
    by (simp add: resolves_def st)
  have fc: "map_of ?c ''type'' = Some ''CONTROLS''" "map_of ?c ''start'' = Some ''0''"
    "map_of ?c ''end'' = Some ''2''" by simp_all
  have fu: "map_of ?u ''type'' = Some ''REACHES''" "map_of ?u ''start'' = Some ''1''"
    "map_of ?u ''end'' = Some ''2''" by simp_all
  have fb: "map_of ?b ''type'' = Some ''CONTROLS''" "map_of ?b ''start'' = Some ''2''"
    "map_of ?b ''end'' = Some ''0''" by simp_all
  have inc: "?c \<in> set ?edges" and inb: "?b \<in> set ?edges" by simp_all
  note c = edge_record_contribution [where m = ?m and ce = "[]" and de = "[]", OF fc]
  note u = edge_record_contribution [where m = ?m and ce = "[]" and de = "[]", OF fu]
  note b = edge_record_contribution [where m = ?m and ce = "[]" and de = "[]", OF fb]
  from c have c1: "edge_step ?m ?c ([], []) = Inr ([(10, 12, ''c'')], [])"
    by (simp add: st)
  from u have u1: "edge_step ?m ?u ([], []) = Inr ([], [])"
    by (simp add: st)
  from c [THEN conjunct2, THEN conjunct2, rule_format, OF conjI [OF run [THEN conjunct1]
      conjI [OF run [THEN conjunct2, THEN conjunct1]
      conjI [OF run [THEN conjunct2, THEN conjunct2, THEN conjunct1]
      conjI [OF run [THEN conjunct2, THEN conjunct2, THEN conjunct2] inc]]]]]
  have c2: "filter (\<lambda>x. fst x = (10, 12)) (adj ?G) = [((10, 12), ''d'')]"
    using r by (simp add: st)
  from b [THEN conjunct2, THEN conjunct2, rule_format, OF conjI [OF run [THEN conjunct1]
      conjI [OF run [THEN conjunct2, THEN conjunct1]
      conjI [OF run [THEN conjunct2, THEN conjunct2, THEN conjunct1]
      conjI [OF run [THEN conjunct2, THEN conjunct2, THEN conjunct2] inb]]]]]
  have b2: "filter (\<lambda>x. fst x = (12, 10)) (adj ?G) = [((12, 10), ''c'')]"
    using nr by (simp add: st)
  from c1 u1 c2 b2 show ?thesis by simp
qed


section \<open>Slices and their key lines\<close>

lemma traverse_keeps: "sliced \<subseteq> traverse nbrs queue visited sliced"
proof (induction nbrs queue visited sliced rule: traverse.induct)
  case (1 nbrs visited sliced_lines)
  show ?case by (simp add: traverse.simps)
next
  case (2 nbrs fro queue visited sliced_lines)
  show ?case
  proof (cases "map_of nbrs fro")
    case None
    with "2.IH"(1) show ?thesis by (auto simp: traverse.simps)
  next
    case (Some ps)
    obtain visited' queue' where v: "visit ps (visited, queue) = (visited', queue')"
      by (cases "visit ps (visited, queue)") auto
    from "2.IH"(2) [OF Some v [symmetric]] Some v show ?thesis
      by (auto simp: traverse.simps)
  qed
qed

lemma traverse_start: "fro \<in> traverse nbrs (fro # queue) visited sliced"
proof (cases "map_of nbrs fro")
  case None
  with traverse_keeps [of "insert fro sliced" nbrs queue visited] show ?thesis
    by (auto simp: traverse.simps)
next
  case (Some ps)
  obtain visited' queue' where v: "visit ps (visited, queue) = (visited', queue')"
    by (cases "visit ps (visited, queue)") auto
  with Some traverse_keeps [of "insert fro sliced" nbrs queue' visited'] show ?thesis
    by (auto simp: traverse.simps)
qed

lemma traverse_not_node:
  "map_of nbrs fro = None \<Longrightarrow> traverse nbrs [fro] visited sliced = insert fro sliced"
  by (simp add: traverse.simps)

lemma key_line_sliced: "ln \<in> sliced_lines PDG ln"
  by (simp add: sliced_lines_def traverse_start)

lemma map_of_DiGraph_pred: "map_of (DiGraph_pred G) n = None \<longleftrightarrow> n \<notin> set (node G)"
  by (simp add: DiGraph_pred_def map_of_eq_None_iff image_image)

lemma map_of_DiGraph_succ: "map_of (DiGraph_succ G) n = None \<longleftrightarrow> n \<notin> set (node G)"
  by (simp add: DiGraph_succ_def map_of_eq_None_iff image_image)

text \<open>So the test \<^verbatim>\<open>len(sliced_lines) != 0\<close> of \<^verbatim>\<open>build_XFG\<close> never fails.\<close>

lemma sliced_lines_not_empty: "sliced_lines PDG ln \<noteq> {}"
  using key_line_sliced [of ln PDG] by auto

lemma sliced_lines_not_node: "ln \<notin> set (node PDG) \<Longrightarrow> sliced_lines PDG ln = {ln}"
  by (simp add: sliced_lines_def traverse_not_node map_of_DiGraph_pred map_of_DiGraph_succ)

lemma XFG_of_key_line: "map_of (graph (XFG_of PDG ln)) ''key_line'' = Some (Line ln)"
  by (simp add: XFG_of_def Let_def update_conv')

lemma XFG_of_node: "node (XFG_of PDG ln) = filter (\<lambda>n. n \<in> sliced_lines PDG ln) (node PDG)"
  by (simp add: XFG_of_def subgraph_copy_def Let_def)

lemma XFG_of_adj:
  "adj (XFG_of PDG ln) =
     concat (map (\<lambda>u. filter (\<lambda>e. fst (fst e) = u \<and> snd (fst e) \<in> sliced_lines PDG ln) (adj PDG))
                 (filter (\<lambda>n. n \<in> sliced_lines PDG ln) (node PDG)))"
  by (simp add: XFG_of_def subgraph_copy_def Let_def)

lemma XFG_of_has_key_line: "ln \<in> set (node PDG) \<Longrightarrow> ln \<in> set (node (XFG_of PDG ln))"
  by (simp add: XFG_of_node key_line_sliced)

lemma XFG_of_no_node:
  "ln \<notin> set (node PDG) \<Longrightarrow> node (XFG_of PDG ln) = [] \<and> adj (XFG_of PDG ln) = []"
  by (auto simp: XFG_of_node XFG_of_adj sliced_lines_not_node filter_empty_conv)

lemma map_entry_fuse:
  "AList.map_entry k f (AList.map_entry k g al) = AList.map_entry k (f \<circ> g) al"
  by (induction al) auto

lemma fold_slice_step:
  "fold (slice_step PDG key) lns res =
     AList.map_entry key (\<lambda>xs. xs @ map (XFG_of PDG) lns) res"
proof (induction lns arbitrary: res)
  case Nil
  show ?case by (induction res) auto
next
  case (Cons ln lns)
  have "sliced_lines PDG ln \<noteq> {}" using key_line_sliced [of ln PDG] by auto
  then have st: "slice_step PDG key ln res =
      AList.map_entry key (\<lambda>xs. xs @ [XFG_of PDG ln]) res"
    by (simp add: slice_step_def)
  have "fold (slice_step PDG key) (ln # lns) res =
      fold (slice_step PDG key) lns (slice_step PDG key ln res)" by simp
  also have "\<dots> = AList.map_entry key (\<lambda>xs. xs @ map (XFG_of PDG) lns)
      (slice_step PDG key ln res)" by (rule Cons.IH)
  also have "\<dots> = AList.map_entry key (\<lambda>xs. xs @ map (XFG_of PDG) (ln # lns)) res"
    by (simp add: st map_entry_fuse comp_def)
  finally show ?case .
qed

lemma build_XFG_four:
  "build_XFG (Some PDG) (Some [(''call'', c), (''array'', a), (''ptr'', p), (''arith'', r)]) =
     Inr (Some [(''call'', map (XFG_of PDG) c), (''array'', map (XFG_of PDG) a),
                (''ptr'', map (XFG_of PDG) p), (''arith'', map (XFG_of PDG) r)])"
  by (simp add: build_XFG_def getitem_def fold_slice_step)

lemma PDG_nodes_are_end_points:
  assumes "build_PDG fs code_path sensi_api_path source_path = Inr (Some PDG, key_line_map)"
  shows "set (node PDG) = fst ` fst ` set (adj PDG) \<union> snd ` fst ` set (adj PDG)"
proof -
  from assms obtain api nodes edges kl where
    t: "PDG_of_tables (set (map strip (split (CHR '','') api))) nodes edges source_path
              = Inr (PDG, kl)"
    by (rule build_PDG_Some)
  from t obtain ce de where
    G: "PDG = add_edges_from de (add_edges_from ce
             \<lparr>graph = [(''file_paths'', Paths [source_path])], node = [], adj = []\<rparr>)"
    by (rule PDG_of_tables_Inr)
  show ?thesis unfolding G
    by (intro nodes_add_edges_from) simp
qed

lemma isolated_PDG:
  "build_PDG isolated_fs ''csv/a.c'' ''data/sensiAPI.txt'' ''a.c'' =
     Inr (Some \<lparr>graph = [(''file_paths'', Paths [''a.c''])], node = [10, 12],
                 adj = [((10, 12), ''d'')]\<rparr>,
          Some [(''call'', [10]), (''array'', [20]), (''ptr'', []), (''arith'', [])])"
  by code_simp

text \<open>
  Claim C1. Every key line is to be a vertex of its own slice, and a key line without
  dependence edges is to give the slice of that one line. \<^verbatim>\<open>build_XFG\<close> does put
  the key line into \<^verbatim>\<open>sliced_lines\<close>, and tests that this set is not empty, which
  it never is; but the graph has vertices only where edges end, and the subgraph then
  passes over a line that is not a vertex of the graph. With the array access at line 20,
  a key line that no edge touches, \<^verbatim>\<open>sliced_lines\<close> is the set of line 20 alone, and
  the slice that is returned for key line 20 has no vertex at all.
\<close>

theorem isolated_key_line_slice:
  "build_PDG isolated_fs ''csv/a.c'' ''data/sensiAPI.txt'' ''a.c'' =
     Inr (Some \<lparr>graph = [(''file_paths'', Paths [''a.c''])], node = [10, 12],
                 adj = [((10, 12), ''d'')]\<rparr>,
          Some [(''call'', [10]), (''array'', [20]), (''ptr'', []), (''arith'', [])]) \<and>
   build_XFG
     (Some \<lparr>graph = [(''file_paths'', Paths [''a.c''])], node = [10, 12],
             adj = [((10, 12), ''d'')]\<rparr>)
     (Some [(''call'', [10]), (''array'', [20]), (''ptr'', []), (''arith'', [])]) =
     Inr (Some [(''call'', [\<lparr>graph = [(''file_paths'', Paths [''a.c'']), (''key_line'', Line 10)],
                             node = [10, 12], adj = [((10, 12), ''d'')]\<rparr>]),
                (''array'', [\<lparr>graph = [(''file_paths'', Paths [''a.c'']), (''key_line'', Line 20)],
                              node = [], adj = []\<rparr>]),
                (''ptr'', []), (''arith'', [])]) \<and>
   sliced_lines \<lparr>graph = [(''file_paths'', Paths [''a.c''])], node = [10, 12],
                  adj = [((10, 12), ''d'')]\<rparr> 20 = {20} \<and>
   20 \<notin> set (node \<lparr>graph = [(''file_paths'', Paths [''a.c'']), (''key_line'', Line 20)],
                      node = [], adj = []\<rparr>)"
  by code_simp

text \<open>
  The extent of the defect: for every graph and key-line map that \<^verbatim>\<open>build_PDG\<close>
  returns, \<^verbatim>\<open>build_XFG\<close> returns one slice for each key line of each category; the
  key line is a vertex of its slice exactly when it is an end point of an edge of the
  graph, and otherwise the slice has no vertex and no edge.
\<close>

lemma key_line_in_slice:
  assumes "build_PDG fs code_path sensi_api_path source_path = Inr (Some PDG, Some key_line_map)"
  shows "\<exists>c a p r.
     key_line_map = [(''call'', c), (''array'', a), (''ptr'', p), (''arith'', r)] \<and>
     build_XFG (Some PDG) (Some key_line_map) =
       Inr (Some [(''call'', map (XFG_of PDG) c), (''array'', map (XFG_of PDG) a),
                  (''ptr'', map (XFG_of PDG) p), (''arith'', map (XFG_of PDG) r)]) \<and>
     (\<forall>ln. map_of (graph (XFG_of PDG ln)) ''key_line'' = Some (Line ln) \<and>
        (ln \<in> set (node (XFG_of PDG ln)) \<longleftrightarrow>
           (\<exists>x \<in> set (adj PDG). fst (fst x) = ln \<or> snd (fst x) = ln)) \<and>
        ((\<forall>x \<in> set (adj PDG). fst (fst x) \<noteq> ln \<and> snd (fst x) \<noteq> ln) \<longrightarrow>
           node (XFG_of PDG ln) = [] \<and> adj (XFG_of PDG ln) = []))"
proof -
  from assms obtain api nodes edges kl where
    kl: "Some key_line_map = Some kl"
    and t: "PDG_of_tables (set (map strip (split (CHR '','') api))) nodes edges source_path
              = Inr (PDG, kl)"
    by (rule build_PDG_Some)
  from t obtain c a p r where
    "kl = [(''call'', c), (''array'', a), (''ptr'', p), (''arith'', r)]"
    by (rule PDG_of_tables_Inr)
  with kl have k: "key_line_map = [(''call'', c), (''array'', a), (''ptr'', p), (''arith'', r)]"
    by simp
  note ends = PDG_nodes_are_end_points [OF assms]
  have e: "ln \<in> set (node PDG) \<longleftrightarrow>
      (\<exists>x \<in> set (adj PDG). fst (fst x) = ln \<or> snd (fst x) = ln)" for ln
    unfolding ends by force
  have "map_of (graph (XFG_of PDG ln)) ''key_line'' = Some (Line ln) \<and>
        (ln \<in> set (node (XFG_of PDG ln)) \<longleftrightarrow>
           (\<exists>x \<in> set (adj PDG). fst (fst x) = ln \<or> snd (fst x) = ln)) \<and>
        ((\<forall>x \<in> set (adj PDG). fst (fst x) \<noteq> ln \<and> snd (fst x) \<noteq> ln) \<longrightarrow>
           node (XFG_of PDG ln) = [] \<and> adj (XFG_of PDG ln) = [])" for ln
  proof (cases "ln \<in> set (node PDG)")
    case True
    with XFG_of_has_key_line [OF True] e [of ln] show ?thesis
      by (auto simp: XFG_of_key_line)
  next
    case False
    with XFG_of_no_node [OF False] e [of ln] show ?thesis
      by (auto simp: XFG_of_key_line)
  qed
  with k build_XFG_four [of PDG c a p r] show ?thesis by blast
qed

lemma key_line_in_slice_at_example:
  "build_XFG
     (Some \<lparr>graph = [(''file_paths'', Paths [''a.c''])], node = [10, 12],
             adj = [((10, 12), ''d'')]\<rparr>)
     (Some [(''call'', [10]), (''array'', [20]), (''ptr'', []), (''arith'', [])]) =
     Inr (Some [(''call'', [XFG_of \<lparr>graph = [(''file_paths'', Paths [''a.c''])], node = [10, 12],
                                     adj = [((10, 12), ''d'')]\<rparr> 10]),
                (''array'', [XFG_of \<lparr>graph = [(''file_paths'', Paths [''a.c''])], node = [10, 12],
                                      adj = [((10, 12), ''d'')]\<rparr> 20]),
                (''ptr'', []), (''arith'', [])]) \<and>
   10 \<in> set (node (XFG_of \<lparr>graph = [(''file_paths'', Paths [''a.c''])], node = [10, 12],
                             adj = [((10, 12), ''d'')]\<rparr> 10)) \<and>
   node (XFG_of \<lparr>graph = [(''file_paths'', Paths [''a.c''])], node = [10, 12],
                 adj = [((10, 12), ''d'')]\<rparr> 20) = []"
proof -
  let ?G = "\<lparr>graph = [(''file_paths'', Paths [''a.c''])], node = [10, 12],
              adj = [((10, 12), ''d'')]\<rparr>"
  from key_line_in_slice [OF isolated_PDG] obtain c a p r where
    k: "[(''call'', [10]), (''array'', [20]), (''ptr'', []), (''arith'', [])] =
          [(''call'', c), (''array'', a), (''ptr'', p), (''arith'', r)]"
    and x: "build_XFG (Some ?G) (Some [(''call'', [10]), (''array'', [20]), (''ptr'', []), (''arith'', [])]) =
       Inr (Some [(''call'', map (XFG_of ?G) c), (''array'', map (XFG_of ?G) a),
                  (''ptr'', map (XFG_of ?G) p), (''arith'', map (XFG_of ?G) r)])"
    and s: "\<And>ln. (ln \<in> set (node (XFG_of ?G ln)) \<longleftrightarrow>
           (\<exists>x \<in> set (adj ?G). fst (fst x) = ln \<or> snd (fst x) = ln)) \<and>
        ((\<forall>x \<in> set (adj ?G). fst (fst x) \<noteq> ln \<and> snd (fst x) \<noteq> ln) \<longrightarrow>
           node (XFG_of ?G ln) = [] \<and> adj (XFG_of ?G ln) = [])"
    by blast
  from k have "c = [10]" "a = [20]" "p = []" "r = []" by simp_all
  with x s [of 10] s [of 20] show ?thesis by simp
qed


section \<open>Locations that do not parse\<close>

text \<open>
  Claim C4. A location that is present and does not parse is to be treated as no
  location by the resolver and by the side table alike. The resolver does so: for the
  node with location \<^verbatim>\<open>abc\<close> it falls back to the node before it and answers 12.
  The side table does not: \<^verbatim>\<open>int\<close> is called outside any \<^verbatim>\<open>try\<close>, and
  \<^verbatim>\<open>extract_nodes_with_location_info\<close>, and with it \<^verbatim>\<open>build_PDG\<close>, ends with
  a \<^verbatim>\<open>ValueError\<close>.
\<close>

theorem malformed_location_raises:
  "read_csv malformed_fs ''csv/a.c/nodes.csv'' =
     Inr [[(''key'', ''0''), (''type'', ''CallExpression''), (''code'', ''strcpy(a, b)''),
           (''location'', ''10:5''), (''operator'', [])],
          [(''key'', ''1''), (''type'', ''Callee''), (''code'', ''strcpy''),
           (''location'', []), (''operator'', [])],
          [(''key'', ''2''), (''type'', ''ExpressionStatement''), (''code'', ''b''),
           (''location'', ''12:1''), (''operator'', [])],
          [(''key'', ''3''), (''type'', ''ArrayIndexing''), (''code'', ''a[i]''),
           (''location'', ''abc''), (''operator'', [])]] \<and>
   extract_line_number 3
        [[(''key'', ''0''), (''type'', ''CallExpression''), (''code'', ''strcpy(a, b)''),
           (''location'', ''10:5''), (''operator'', [])],
          [(''key'', ''1''), (''type'', ''Callee''), (''code'', ''strcpy''),
           (''location'', []), (''operator'', [])],
          [(''key'', ''2''), (''type'', ''ExpressionStatement''), (''code'', ''b''),
           (''location'', ''12:1''), (''operator'', [])],
          [(''key'', ''3''), (''type'', ''ArrayIndexing''), (''code'', ''a[i]''),
           (''location'', ''abc''), (''operator'', [])]] = Inr 12 \<and>
   extract_nodes_with_location_info
        [[(''key'', ''0''), (''type'', ''CallExpression''), (''code'', ''strcpy(a, b)''),
           (''location'', ''10:5''), (''operator'', [])],
          [(''key'', ''1''), (''type'', ''Callee''), (''code'', ''strcpy''),
           (''location'', []), (''operator'', [])],
          [(''key'', ''2''), (''type'', ''ExpressionStatement''), (''code'', ''b''),
           (''location'', ''12:1''), (''operator'', [])],
          [(''key'', ''3''), (''type'', ''ArrayIndexing''), (''code'', ''a[i]''),
           (''location'', ''abc''), (''operator'', [])]] = Inl ValueError \<and>
   build_PDG malformed_fs ''csv/a.c'' ''data/sensiAPI.txt'' ''a.c'' = Inl ValueError"
  by code_simp


section \<open>The side table of line numbers\<close>

text \<open>
  Claim C5, as stated, has an entry in \<^verbatim>\<open>node_id_to_line\<close> for every node whose
  line the resolution rule finds. Node 1 of the example has no location of its own; the
  rule resolves it to line 10 through the node before it, and the side table has no
  entry for it.
\<close>

theorem node_id_to_line_counterexample:
  "read_csv example_fs ''csv/a.c/nodes.csv'' =
     Inr [[(''key'', ''0''), (''type'', ''CallExpression''), (''code'', ''strcpy(a, b)''),
           (''location'', ''10:5''), (''operator'', [])],
          [(''key'', ''1''), (''type'', ''Callee''), (''code'', ''strcpy''),
           (''location'', []), (''operator'', [])],
          [(''key'', ''2''), (''type'', ''ExpressionStatement''), (''code'', ''b''),
           (''location'', ''12:1''), (''operator'', [])]] \<and>
   extract_line_number 1
        [[(''key'', ''0''), (''type'', ''CallExpression''), (''code'', ''strcpy(a, b)''),
           (''location'', ''10:5''), (''operator'', [])],
          [(''key'', ''1''), (''type'', ''Callee''), (''code'', ''strcpy''),
           (''location'', []), (''operator'', [])],
          [(''key'', ''2''), (''type'', ''ExpressionStatement''), (''code'', ''b''),
           (''location'', ''12:1''), (''operator'', [])]] = Inr 10 \<and>
   extract_nodes_with_location_info
        [[(''key'', ''0''), (''type'', ''CallExpression''), (''code'', ''strcpy(a, b)''),
           (''location'', ''10:5''), (''operator'', [])],
          [(''key'', ''1''), (''type'', ''Callee''), (''code'', ''strcpy''),
           (''location'', []), (''operator'', [])],
          [(''key'', ''2''), (''type'', ''ExpressionStatement''), (''code'', ''b''),
           (''location'', ''12:1''), (''operator'', [])]] =
     Inr ([0, 2], [''0'', ''2''], [10, 12], [(''0'', 10), (''2'', 12)]) \<and>
   map_of [(''0'', 10 :: int), (''2'', 12)] ''1'' = None"
  by code_simp


lemma strip_Nil_iff: "strip s = [] \<longleftrightarrow> (\<forall>ch \<in> set s. isspace ch)"
proof
  assume "strip s = []"
  then have a: "\<forall>ch \<in> set (dropWhile isspace s). isspace ch"
    by (simp add: strip_def dropWhile_eq_Nil_conv)
  have "dropWhile isspace s = []"
  proof (rule ccontr)
    assume n: "dropWhile isspace s \<noteq> []"
    then have "\<not> isspace (hd (dropWhile isspace s))" by (rule hd_dropWhile)
    moreover from n have "hd (dropWhile isspace s) \<in> set (dropWhile isspace s)" by simp
    ultimately show False using a by blast
  qed
  then show "\<forall>ch \<in> set s. isspace ch" by (simp add: dropWhile_eq_Nil_conv)
next
  assume "\<forall>ch \<in> set s. isspace ch"
  then have d: "dropWhile isspace s = []" by (simp add: dropWhile_eq_Nil_conv)
  show "strip s = []" by (simp only: strip_def d rev.simps dropWhile.simps)
qed

lemma split_not_Nil: "split sep s \<noteq> []"
  by (induction s) (auto split: list.splits)

lemma hd_split: "hd (split sep s) = takeWhile (\<lambda>ch. ch \<noteq> sep) s"
  by (induction s) (auto split: list.splits simp: split_not_Nil)

lemma py_int_blank:
  assumes "\<forall>ch \<in> set s. isspace ch"
  shows "py_int s = None"
proof -
  let ?t = "rev (dropWhile Py_ISSPACE (rev (dropWhile Py_ISSPACE s)))"
  have sub: "set ?t \<subseteq> set s" by (auto dest!: set_dropWhileD)
  show ?thesis
  proof (cases ?t)
    case Nil
    show ?thesis unfolding py_int_def Nil by simp
  next
    case (Cons ch cs)
    have "ch \<in> set ?t" unfolding Cons by simp
    with sub assms have "isspace ch" by blast
    then have "ch \<noteq> CHR ''-''" "ch \<noteq> CHR ''+''" "\<not> isdigit ch"
      by (auto simp: isspace_def isdigit_def)
    then show ?thesis unfolding py_int_def Cons by (simp add: unsigned_def)
  qed
qed

lemma line_of_blank:
  assumes "strip location = []"
  shows "py_int (hd (split (CHR '':'') location)) = None"
proof -
  from assms have "\<forall>ch \<in> set location. isspace ch" by (simp add: strip_Nil_iff)
  then have "\<forall>ch \<in> set (takeWhile (\<lambda>ch. ch \<noteq> CHR '':'') location). isspace ch"
    by (auto dest: set_takeWhileD)
  then show ?thesis by (simp add: hd_split py_int_blank)
qed

lemma own_line_parsed:
  assumes "map_of nd ''location'' = Some location"
    and "py_int (hd (split (CHR '':'') location)) = Some ln"
  shows "own_line nd = Some ln"
proof -
  from assms(2) line_of_blank have "strip location \<noteq> []" by fastforce
  with assms show ?thesis by (simp add: own_line_def)
qed

lemma extract_line_number_own:
  assumes "i < length nodes" and "own_line (nodes ! i) = Some ln"
  shows "extract_line_number (int i) nodes = Inr ln"
  using assms by (subst extract_line_number.simps) (simp add: index_def)

lemma location_step_Inr:
  assumes "location_step (i, nd) (ni, ids, lns, m) = Inr (ni', ids', lns', m')"
  shows "(\<not> has_location nd \<and> m' = m) \<or>
         (has_location nd \<and> (\<exists>k ln. map_of nd ''key'' = Some k \<and> own_line nd = Some ln \<and>
            m' = AList.update (strip k) ln m))"
proof (cases "map_of nd ''location''")
  case None
  with assms show ?thesis by (simp add: location_step_def has_location_def)
next
  case (Some location)
  show ?thesis
  proof (cases "location = []")
    case True
    with assms Some show ?thesis by (simp add: location_step_def has_location_def)
  next
    case False
    with assms Some obtain ln where ln: "py_int (hd (split (CHR '':'') location)) = Some ln"
      by (cases "py_int (hd (split (CHR '':'') location))") (simp_all add: location_step_def)
    with assms Some False obtain k where k: "map_of nd ''key'' = Some k"
      by (auto simp: location_step_def bind_err_eq_Inr getitem_eq_Inr)
    from assms Some False ln k have "m' = AList.update (strip k) ln m"
      by (simp add: location_step_def getitem_Some)
    with Some False k own_line_parsed [OF Some ln] show ?thesis
      by (simp add: has_location_def)
  qed
qed

lemma location_loop:
  assumes "for_each location_step (enumerate n xs) (ni, ids, lns, m) = Inr (ni', ids', lns', m')"
  shows "(\<forall>x \<in> set xs. has_location x \<longrightarrow>
            (\<exists>k ln. map_of x ''key'' = Some k \<and> own_line x = Some ln \<and>
               map_of m' (strip k) \<noteq> None)) \<and>
         (\<forall>id. map_of m id \<noteq> None \<longrightarrow> map_of m' id \<noteq> None) \<and>
         (\<forall>id ln. map_of m' id = Some ln \<longrightarrow>
            map_of m id = Some ln \<or>
            (\<exists>x \<in> set xs. has_location x \<and> map_option strip (map_of x ''key'') = Some id \<and>
               own_line x = Some ln))"
  using assms
proof (induction xs arbitrary: n ni ids lns m)
  case Nil
  then show ?case by simp
next
  case (Cons x xs)
  from Cons.prems obtain s1 where st: "location_step (n, x) (ni, ids, lns, m) = Inr s1"
    and re: "for_each location_step (enumerate (Suc n) xs) s1 = Inr (ni', ids', lns', m')"
    by (auto simp: bind_err_eq_Inr)
  obtain ni1 ids1 lns1 m1 where s1: "s1 = (ni1, ids1, lns1, m1)" by (cases s1) auto
  note IH = Cons.IH [OF re [unfolded s1]]
  from location_step_Inr [OF st [unfolded s1]]
  show ?case
  proof
    assume a: "\<not> has_location x \<and> m1 = m"
    with IH show ?thesis by auto
  next
    assume "has_location x \<and> (\<exists>k ln. map_of x ''key'' = Some k \<and> own_line x = Some ln \<and>
            m1 = AList.update (strip k) ln m)"
    then obtain k ln where h: "has_location x" and k: "map_of x ''key'' = Some k"
      and ln: "own_line x = Some ln" and m1: "m1 = AList.update (strip k) ln m"
      by blast
    have up: "map_of m1 id = (if id = strip k then Some ln else map_of m id)" for id
      by (simp add: m1 update_conv')
    from up [of "strip k"] IH have here: "map_of m' (strip k) \<noteq> None" by auto
    have c1: "\<forall>y \<in> set (x # xs). has_location y \<longrightarrow>
            (\<exists>k ln. map_of y ''key'' = Some k \<and> own_line y = Some ln \<and>
               map_of m' (strip k) \<noteq> None)"
      using IH here k ln by auto
    have c2: "\<forall>id. map_of m id \<noteq> None \<longrightarrow> map_of m' id \<noteq> None"
    proof (intro allI impI)
      fix id assume "map_of m id \<noteq> None"
      with up [of id] have "map_of m1 id \<noteq> None" by auto
      with IH show "map_of m' id \<noteq> None" by blast
    qed
    have c3: "\<forall>id l. map_of m' id = Some l \<longrightarrow>
            map_of m id = Some l \<or>
            (\<exists>y \<in> set (x # xs). has_location y \<and> map_option strip (map_of y ''key'') = Some id \<and>
               own_line y = Some l)"
    proof (intro allI impI)
      fix id l assume "map_of m' id = Some l"
      with IH have "map_of m1 id = Some l \<or>
            (\<exists>y \<in> set xs. has_location y \<and> map_option strip (map_of y ''key'') = Some id \<and>
               own_line y = Some l)" by blast
      then show "map_of m id = Some l \<or>
            (\<exists>y \<in> set (x # xs). has_location y \<and> map_option strip (map_of y ''key'') = Some id \<and>
               own_line y = Some l)"
      proof
        assume "map_of m1 id = Some l"
        with up [of id] h k ln show ?thesis by (auto split: if_splits)
      next
        assume "\<exists>y \<in> set xs. has_location y \<and> map_option strip (map_of y ''key'') = Some id \<and>
               own_line y = Some l"
        then show ?thesis by auto
      qed
    qed
    from c1 c2 c3 show ?thesis by blast
  qed
qed

text \<open>
  Claim C5, amended. When \<^verbatim>\<open>extract_nodes_with_location_info\<close> returns, every entry
  of \<^verbatim>\<open>node_id_to_line\<close> belongs to a node that has a non-empty location of its
  own: the key of the entry is the stripped identifier of that node and the value is the
  line of its own location. Every node with a non-empty location of its own has an
  entry under its stripped identifier; the line of its own location is what the
  resolution rule answers for the node, and it is the value of the entry whenever all
  nodes with a location that share the identifier lie on that line (so whenever the
  identifier is unique). A node without a location of its own gets no entry.
\<close>

theorem node_id_to_line_own_locations:
  assumes "extract_nodes_with_location_info nodes =
             Inr (node_indices, node_ids, line_numbers, node_id_to_line)"
  shows
   "(\<forall>id ln. map_of node_id_to_line id = Some ln \<longrightarrow>
       (\<exists>nd \<in> set nodes. has_location nd \<and> map_option strip (map_of nd ''key'') = Some id \<and>
          own_line nd = Some ln)) \<and>
    (\<forall>i < length nodes. has_location (nodes ! i) \<longrightarrow>
       (\<exists>k ln. map_of (nodes ! i) ''key'' = Some k \<and> own_line (nodes ! i) = Some ln \<and>
          extract_line_number (int i) nodes = Inr ln \<and>
          map_of node_id_to_line (strip k) \<noteq> None \<and>
          ((\<forall>nd \<in> set nodes. has_location nd \<and>
               map_option strip (map_of nd ''key'') = Some (strip k) \<longrightarrow> own_line nd = Some ln) \<longrightarrow>
             map_of node_id_to_line (strip k) = Some ln)))"
proof -
  note loop = location_loop [OF assms [unfolded extract_nodes_with_location_info_def]]
  have a: "\<exists>nd \<in> set nodes. has_location nd \<and> map_option strip (map_of nd ''key'') = Some id \<and>
          own_line nd = Some ln" if "map_of node_id_to_line id = Some ln" for id ln
    using loop that by auto
  have b: "\<exists>k ln. map_of (nodes ! i) ''key'' = Some k \<and> own_line (nodes ! i) = Some ln \<and>
          extract_line_number (int i) nodes = Inr ln \<and>
          map_of node_id_to_line (strip k) \<noteq> None \<and>
          ((\<forall>nd \<in> set nodes. has_location nd \<and>
               map_option strip (map_of nd ''key'') = Some (strip k) \<longrightarrow> own_line nd = Some ln) \<longrightarrow>
             map_of node_id_to_line (strip k) = Some ln)"
    if i: "i < length nodes" and h: "has_location (nodes ! i)" for i
  proof -
    from i have "nodes ! i \<in> set nodes" by simp
    with loop h obtain k ln where k: "map_of (nodes ! i) ''key'' = Some k"
      and ln: "own_line (nodes ! i) = Some ln"
      and d: "map_of node_id_to_line (strip k) \<noteq> None" by blast
    have "map_of node_id_to_line (strip k) = Some ln"
      if u: "\<forall>nd \<in> set nodes. has_location nd \<and>
               map_option strip (map_of nd ''key'') = Some (strip k) \<longrightarrow> own_line nd = Some ln"
    proof -
      from d obtain l where l: "map_of node_id_to_line (strip k) = Some l" by auto
      from a [OF l] u have "l = ln" by auto
      with l show ?thesis by simp
    qed
    with k ln d extract_line_number_own [OF i ln] show ?thesis by blast
  qed
  from a b show ?thesis by blast
qed

theorem node_id_to_line_own_locations_witness:
  "extract_nodes_with_location_info
      [[(''key'', ''0''), (''location'', ''10:5'')], [(''key'', ''1''), (''location'', [])],
       [(''key'', ''2''), (''location'', ''12:1'')]] =
     Inr ([0, 2], [''0'', ''2''], [10, 12], [(''0'', 10), (''2'', 12)]) \<and>
   has_location [(''key'', ''2''), (''location'', ''12:1'')] \<and>
   extract_line_number 2
      [[(''key'', ''0''), (''location'', ''10:5'')], [(''key'', ''1''), (''location'', [])],
       [(''key'', ''2''), (''location'', ''12:1'')]] = Inr 12 \<and>
   map_of [(''0'', 10 :: int), (''2'', 12)] ''2'' = Some 12"
proof -
  let ?nodes = "[[(''key'', ''0''), (''location'', ''10:5'')], [(''key'', ''1''), (''location'', [])],
       [(''key'', ''2''), (''location'', ''12:1'')]]"
  let ?m = "[(''0'', 10 :: int), (''2'', 12)]"
  have run: "extract_nodes_with_location_info ?nodes =
     Inr ([0, 2], [''0'', ''2''], [10, 12], ?m)"
    by code_simp
  have h: "has_location (?nodes ! 2)" by (simp add: has_location_def)
  have st: "strip ''0'' = ''0''" "strip ''1'' = ''1''" "strip ''2'' = ''2''"
    by (simp_all add: strip_def isspace_def)
  have o: "own_line [(''key'', ''2''), (''location'', ''12:1'')] = Some 12"
    by code_simp
  from node_id_to_line_own_locations [OF run, THEN conjunct2, rule_format, of 2] h
  obtain k ln where k: "map_of (?nodes ! 2) ''key'' = Some k"
    and ln: "own_line (?nodes ! 2) = Some ln"
    and e: "extract_line_number (int 2) ?nodes = Inr ln"
    and u: "(\<forall>nd \<in> set ?nodes. has_location nd \<and>
               map_option strip (map_of nd ''key'') = Some (strip k) \<longrightarrow> own_line nd = Some ln) \<longrightarrow>
             map_of ?m (strip k) = Some ln"
    by auto
  from k have k2: "k = ''2''" by simp
  from ln o have l12: "ln = 12" by simp
  have "\<forall>nd \<in> set ?nodes. has_location nd \<and>
               map_option strip (map_of nd ''key'') = Some ''2'' \<longrightarrow> own_line nd = Some 12"
    by (simp add: st o)
  with u have "map_of ?m ''2'' = Some 12" by (simp add: k2 l12 st)
  with run h e show ?thesis by (simp add: l12)
qed


section \<open>Rows of a table\<close>

lemma dropWhile_id: "xs = [] \<or> \<not> P (hd xs) \<Longrightarrow> dropWhile P xs = xs"
  by (cases xs) auto

lemma strip_idem: "strip (strip s) = strip s"
proof -
  let ?u = "dropWhile isspace s"
  let ?w = "dropWhile isspace (rev ?u)"
  have w: "?w = [] \<or> \<not> isspace (hd ?w)"
    using hd_dropWhile [of isspace "rev ?u"] by blast
  have "rev ?w = [] \<or> \<not> isspace (hd (rev ?w))"
  proof (cases "?w = []")
    case True
    then show ?thesis by simp
  next
    case False
    have u: "?u \<noteq> []"
    proof
      assume e: "?u = []"
      have "?w = []" by (simp only: e rev.simps dropWhile.simps)
      with False show False by contradiction
    qed
    have "rev ?u = takeWhile isspace (rev ?u) @ ?w" by simp
    with False have "last (rev ?u) = last ?w"
      by (metis last_appendR)
    with u have "last ?w = hd ?u" by (simp add: last_rev)
    moreover from u have "\<not> isspace (hd ?u)" by (rule hd_dropWhile)
    ultimately show ?thesis using False by (simp add: hd_rev)
  qed
  then have 1: "dropWhile isspace (rev ?w) = rev ?w" by (rule dropWhile_id)
  from w have 2: "dropWhile isspace ?w = ?w" by (rule dropWhile_id)
  have "strip (strip s) = rev (dropWhile isspace (rev (dropWhile isspace (rev ?w))))"
    by (simp add: strip_def)
  also have "\<dots> = rev ?w" by (simp only: 1 rev_rev_ident 2)
  finally show ?thesis by (simp add: strip_def)
qed

lemma snd_set_update: "snd ` set (AList.update k v al) \<subseteq> insert v (snd ` set al)"
  by (induction al) auto

lemma read_row_fold:
  "read_row h_parts lparts =
     fold (\<lambda>(i, hp). AList.update hp (cell lparts i)) (enumerate 0 h_parts) []"
  by (simp add: read_row_def cell_def)

lemma fold_update_keys:
  "fst ` set (fold (\<lambda>(i, hp). AList.update hp (f i)) (enumerate n h) al) = set h \<union> fst ` set al"
  by (induction h arbitrary: n al) (auto simp: dom_update)

lemma fold_update_distinct:
  "distinct (map fst al) \<Longrightarrow>
     distinct (map fst (fold (\<lambda>(i, hp). AList.update hp (f i)) (enumerate n h) al))"
  by (induction h arbitrary: n al) (auto simp: distinct_update)

lemma fold_update_other:
  "k \<notin> set h \<Longrightarrow>
     map_of (fold (\<lambda>(i, hp). AList.update hp (f i)) (enumerate n h) al) k = map_of al k"
  by (induction h arbitrary: n al) (auto simp: update_conv')

lemma fold_update_last:
  "j < length h \<Longrightarrow> \<forall>j'. j < j' \<and> j' < length h \<longrightarrow> h ! j' \<noteq> h ! j \<Longrightarrow>
     map_of (fold (\<lambda>(i, hp). AList.update hp (f i)) (enumerate n h) al) (h ! j) = Some (f (n + j))"
proof (induction h arbitrary: n al j)
  case Nil
  then show ?case by simp
next
  case (Cons x xs)
  show ?case
  proof (cases j)
    case 0
    with Cons.prems(2) have "x \<notin> set xs"
      by (auto simp: in_set_conv_nth)
    with 0 show ?thesis by (simp add: fold_update_other update_conv')
  next
    case (Suc j0)
    with Cons.prems have lt: "j0 < length xs"
      and "\<forall>j'. j0 < j' \<and> j' < length xs \<longrightarrow> xs ! j' \<noteq> xs ! j0"
      by auto
    from Cons.IH [OF this, of "Suc n" "AList.update x (f n) al"] Suc show ?thesis by simp
  qed
qed

lemma fold_update_values:
  "v \<in> snd ` set (fold (\<lambda>(i, hp). AList.update hp (f i)) (enumerate n h) al) \<Longrightarrow>
     v \<in> snd ` set al \<or> (\<exists>i. v = f i)"
proof (induction h arbitrary: n al)
  case Nil
  then show ?case by simp
next
  case (Cons x xs)
  from Cons.prems have
    "v \<in> snd ` set (fold (\<lambda>(i, hp). AList.update hp (f i)) (enumerate (Suc n) xs)
       (AList.update x (f n) al))" by simp
  from Cons.IH [OF this] snd_set_update [of x "f n" al] show ?case by auto
qed

lemma strip_empty: "strip [] = []"
  by (simp add: strip_def)

lemma strip_cell: "strip (cell lparts i) = cell lparts i"
  by (simp add: cell_def strip_idem strip_empty)

lemma read_row_facts:
  "fst ` set (read_row h lparts) = set h"
  "distinct (map fst (read_row h lparts))"
  "j < length h \<Longrightarrow> \<forall>j'. j < j' \<and> j' < length h \<longrightarrow> h ! j' \<noteq> h ! j \<Longrightarrow>
     map_of (read_row h lparts) (h ! j) =
       Some (if j < length lparts then strip (lparts ! j) else [])"
  "v \<in> snd ` set (read_row h lparts) \<Longrightarrow> strip v = v"
proof -
  show "fst ` set (read_row h lparts) = set h"
    by (simp add: read_row_fold fold_update_keys)
  show "distinct (map fst (read_row h lparts))"
    by (simp add: read_row_fold fold_update_distinct)
  show "map_of (read_row h lparts) (h ! j) =
       Some (if j < length lparts then strip (lparts ! j) else [])"
    if "j < length h" "\<forall>j'. j < j' \<and> j' < length h \<longrightarrow> h ! j' \<noteq> h ! j"
    using fold_update_last [OF that, of "cell lparts" 0 "[]"]
    by (simp add: read_row_fold cell_def)
  show "strip v = v" if "v \<in> snd ` set (read_row h lparts)"
  proof -
    from that fold_update_values [of v "cell lparts" 0 h "[]"]
    have "\<exists>i. v = cell lparts i" by (simp add: read_row_fold)
    then show ?thesis by (auto simp: strip_cell)
  qed
qed

lemma length_split: "length (split sep s) = Suc (length (filter (\<lambda>ch. ch = sep) s))"
  by (induction s) (auto split: list.splits simp: split_not_Nil)

lemma length_filter_dropWhile: "length (filter P (dropWhile Q s)) \<le> length (filter P s)"
  by (induction s) auto

lemma length_filter_strip: "length (filter P (strip s)) \<le> length (filter P s)"
proof -
  have "length (filter P (strip s)) = length (filter P (dropWhile isspace (rev (dropWhile isspace s))))"
    by (simp add: strip_def rev_filter [symmetric])
  also have "\<dots> \<le> length (filter P (rev (dropWhile isspace s)))"
    by (rule length_filter_dropWhile)
  also have "\<dots> = length (filter P (dropWhile isspace s))"
    by (simp add: rev_filter [symmetric])
  also have "\<dots> \<le> length (filter P s)" by (rule length_filter_dropWhile)
  finally show ?thesis .
qed

lemma length_split_strip: "length (split sep (strip s)) \<le> length (split sep s)"
  by (simp add: length_split length_filter_strip)

text \<open>
  Claim C8. \<^verbatim>\<open>read_csv\<close> is to return, for each data row, the mapping from the
  names of the header to the values of the row. The row of the table below has two
  fields, the empty string under \<^verbatim>\<open>a\<close> and \<^verbatim>\<open>x\<close> under \<^verbatim>\<open>b\<close>. The loop of
  \<^verbatim>\<open>read_csv\<close> does pair the header names with the parts of the row by position, but
  it strips the whole line first, which takes the leading tab away: the row is left with
  the one part \<^verbatim>\<open>x\<close>, and the mapping that is returned has \<^verbatim>\<open>x\<close> under \<^verbatim>\<open>a\<close>
  and the empty string under \<^verbatim>\<open>b\<close>.
\<close>

theorem blank_first_field_shifts:
  "readlines shifted_row_csv =
     [''a'' @ [CHR 0x09] @ ''b'' @ [CHR 0x0A], [CHR 0x09] @ ''x'' @ [CHR 0x0A]] \<and>
   split (CHR 0x09) ([CHR 0x09] @ ''x'') = [[], ''x''] \<and>
   read_csv [''t.csv'' \<mapsto> shifted_row_csv] ''t.csv'' = Inr [[(''a'', ''x''), (''b'', [])]]"
  by code_simp

text \<open>
  What \<^verbatim>\<open>read_csv\<close> returns in general. For a path that does not exist it fails
  (the assertion). For a path that exists it returns one dictionary for each line after
  the first, in the order of the lines. The keys of each dictionary are the names of the
  header, which are the stripped tab-separated parts of the stripped first line. Under
  the name of column \<open>j\<close> (the last column of that name, should a name repeat) the
  dictionary of a line holds the stripped \<open>j\<close>-th tab-separated part of the stripped
  line, and the empty string when the line has no such part; so it holds the empty string
  for every column beyond the tab-separated parts of the line as it stands in the file.
  Every value is a string that stripping leaves as it is; nothing is converted.
\<close>

lemma read_csv_rows:
  "(fs csv_file_path = None \<longrightarrow> read_csv fs csv_file_path = Inl AssertionError) \<and>
   (\<forall>content. fs csv_file_path = Some content \<longrightarrow>
      (\<exists>data. read_csv fs csv_file_path = Inr data \<and>
         length data = length (readlines content) - 1 \<and>
         (\<forall>i < length data.
            fst ` set (data ! i) = set (header_parts content) \<and>
            distinct (map fst (data ! i)) \<and>
            (\<forall>j < length (header_parts content).
               (\<forall>j'. j < j' \<and> j' < length (header_parts content) \<longrightarrow>
                  header_parts content ! j' \<noteq> header_parts content ! j) \<longrightarrow>
               map_of (data ! i) (header_parts content ! j) =
                 Some (if j < length (split (CHR 0x09) (strip (readlines content ! (i + 1))))
                       then strip (split (CHR 0x09) (strip (readlines content ! (i + 1))) ! j)
                       else []) \<and>
               (length (split (CHR 0x09) (readlines content ! (i + 1))) \<le> j \<longrightarrow>
                  map_of (data ! i) (header_parts content ! j) = Some [])) \<and>
            (\<forall>v \<in> snd ` set (data ! i). strip v = v))))"
proof (intro conjI allI impI)
  assume "fs csv_file_path = None"
  then show "read_csv fs csv_file_path = Inl AssertionError" by (simp add: read_csv_def)
next
  fix content
  assume c: "fs csv_file_path = Some content"
  let ?h = "header_parts content"
  let ?row = "\<lambda>line. read_row ?h (split (CHR 0x09) (strip line))"
  let ?data = "map ?row (tl (readlines content))"
  have r: "read_csv fs csv_file_path = Inr ?data" using c by (simp add: read_csv_def)
  have n: "length ?data = length (readlines content) - 1" by simp
  have rows: "?data ! i = ?row (readlines content ! (i + 1))" if "i < length ?data" for i
    using that by (simp add: nth_tl)
  have "fst ` set (?data ! i) = set ?h \<and>
            distinct (map fst (?data ! i)) \<and>
            (\<forall>j < length ?h.
               (\<forall>j'. j < j' \<and> j' < length ?h \<longrightarrow> ?h ! j' \<noteq> ?h ! j) \<longrightarrow>
               map_of (?data ! i) (?h ! j) =
                 Some (if j < length (split (CHR 0x09) (strip (readlines content ! (i + 1))))
                       then strip (split (CHR 0x09) (strip (readlines content ! (i + 1))) ! j)
                       else []) \<and>
               (length (split (CHR 0x09) (readlines content ! (i + 1))) \<le> j \<longrightarrow>
                  map_of (?data ! i) (?h ! j) = Some [])) \<and>
            (\<forall>v \<in> snd ` set (?data ! i). strip v = v)" if i: "i < length ?data" for i
  proof -
    let ?line = "readlines content ! (i + 1)"
    let ?l = "split (CHR 0x09) (strip ?line)"
    note f = read_row_facts [where h = ?h and lparts = ?l]
    have le: "length ?l \<le> length (split (CHR 0x09) ?line)" by (rule length_split_strip)
    have look: "map_of (read_row ?h ?l) (?h ! j) =
                 Some (if j < length ?l then strip (?l ! j) else []) \<and>
               (length (split (CHR 0x09) ?line) \<le> j \<longrightarrow>
                  map_of (read_row ?h ?l) (?h ! j) = Some [])"
      if "j < length ?h" "\<forall>j'. j < j' \<and> j' < length ?h \<longrightarrow> ?h ! j' \<noteq> ?h ! j" for j
      using f(3) [OF that] le by auto
    show ?thesis unfolding rows [OF i] using f(1,2,4) look by blast
  qed
  with r n show "\<exists>data. read_csv fs csv_file_path = Inr data \<and>
         length data = length (readlines content) - 1 \<and>
         (\<forall>i < length data.
            fst ` set (data ! i) = set (header_parts content) \<and>
            distinct (map fst (data ! i)) \<and>
            (\<forall>j < length (header_parts content).
               (\<forall>j'. j < j' \<and> j' < length (header_parts content) \<longrightarrow>
                  header_parts content ! j' \<noteq> header_parts content ! j) \<longrightarrow>
               map_of (data ! i) (header_parts content ! j) =
                 Some (if j < length (split (CHR 0x09) (strip (readlines content ! (i + 1))))
                       then strip (split (CHR 0x09) (strip (readlines content ! (i + 1))) ! j)
                       else []) \<and>
               (length (split (CHR 0x09) (readlines content ! (i + 1))) \<le> j \<longrightarrow>
                  map_of (data ! i) (header_parts content ! j) = Some [])) \<and>
            (\<forall>v \<in> snd ` set (data ! i). strip v = v))"
    by blast
qed

lemma read_csv_rows_at_example:
  "read_csv Map.empty ''t.csv'' = Inl AssertionError \<and>
   (\<exists>data. read_csv [''t.csv'' \<mapsto> short_row_csv] ''t.csv'' = Inr data \<and> length data = 1 \<and>
      map_of (data ! 0) ''a'' = Some ''x'' \<and> map_of (data ! 0) ''b'' = Some [])"
proof -
  let ?fs = "[''t.csv'' \<mapsto> short_row_csv]"
  have h: "header_parts short_row_csv = [''a'', ''b'']" by code_simp
  have l: "readlines short_row_csv = [''a'' @ [CHR 0x09] @ ''b'' @ [CHR 0x0A], '' x '' @ [CHR 0x0A]]"
    by code_simp
  have p: "split (CHR 0x09) (strip ('' x '' @ [CHR 0x0A])) = [''x'']" by code_simp
  have s: "strip ''x'' = ''x''" by code_simp
  have e: "read_csv Map.empty ''t.csv'' = Inl AssertionError"
    using read_csv_rows [of Map.empty "''t.csv''"] by simp
  from read_csv_rows [of ?fs "''t.csv''", THEN conjunct2, rule_format, of short_row_csv]
  obtain data where d: "read_csv ?fs ''t.csv'' = Inr data"
    and n: "length data = length (readlines short_row_csv) - 1"
    and f: "\<And>i j. i < length data \<Longrightarrow> j < length (header_parts short_row_csv) \<Longrightarrow>
               (\<forall>j'. j < j' \<and> j' < length (header_parts short_row_csv) \<longrightarrow>
                  header_parts short_row_csv ! j' \<noteq> header_parts short_row_csv ! j) \<Longrightarrow>
               map_of (data ! i) (header_parts short_row_csv ! j) =
                 Some (if j < length (split (CHR 0x09) (strip (readlines short_row_csv ! (i + 1))))
                       then strip (split (CHR 0x09) (strip (readlines short_row_csv ! (i + 1))) ! j)
                       else [])"
    by auto
  from n have n1: "length data = 1" by (simp add: l)
  have u0: "\<forall>j'. 0 < j' \<and> j' < length (header_parts short_row_csv) \<longrightarrow>
                  header_parts short_row_csv ! j' \<noteq> header_parts short_row_csv ! 0"
    by (auto simp: h less_Suc_eq)
  have u1: "\<forall>j'. 1 < j' \<and> j' < length (header_parts short_row_csv) \<longrightarrow>
                  header_parts short_row_csv ! j' \<noteq> header_parts short_row_csv ! 1"
    by (auto simp: h)
  from f [of 0 0, OF _ _ u0] n1 have a: "map_of (data ! 0) ''a'' = Some ''x''"
    using p s by (simp add: h l)
  from f [of 0 1, OF _ _ u1] n1 have b: "map_of (data ! 0) ''b'' = Some []"
    using p by (simp add: h l)
  from e d n1 a b show ?thesis by blast
qed

end
